theory Spec2Isabelle
  imports Complex_Main "HOL-Library.Sublist" "HOL-Library.Multiset"
begin

section \<open>Data model\<close>

text \<open>
  The exceptions the modelled Python code can raise. \<open>ValueError\<close> carries the message
  where the source builds one.
\<close>

datatype py_error =
    ValueError string
  | TypeError
  | IndexError
  | ZeroDivisionError
  | ReadError string
  | OtherError string

text \<open>
  \<open>class DocumentChunk\<close> of \<open>utils/document_processor.py\<close>. Every field but
  \<open>content\<close> starts as \<open>None\<close>; an embedding is a vector of numbers, idealised
  here as reals.
\<close>

record DocumentChunk =
  content :: string
  page_number :: "int option"
  start_pos :: "int option"
  end_pos :: "int option"
  embedding :: "real list option"

section \<open>Python list primitives\<close>

text \<open>\<open>xs[i]\<close>: a negative index counts from the end, an index out of range raises.\<close>

definition py_getitem :: "'a list \<Rightarrow> int \<Rightarrow> py_error + 'a" where
  "py_getitem xs i =
     (if 0 \<le> i \<and> i < int (length xs) then Inr (xs ! nat i)
      else if i < 0 \<and> - int (length xs) \<le> i then Inr (xs ! nat (int (length xs) + i))
      else Inl IndexError)"

text \<open>\<open>range(n)\<close>: empty when \<open>n \<le> 0\<close>.\<close>

definition py_range :: "int \<Rightarrow> int list" where
  "py_range n = map int [0..<nat n]"

section \<open>Diverse sampling (\<open>utils/assistant.py\<close>)\<close>

text \<open>
  The \<open>for i in range(count)\<close> loop of \<open>_select_diverse_chunks\<close>, with
  \<open>selected\<close> as the accumulator.
\<close>

fun select_loop ::
  "DocumentChunk list \<Rightarrow> int \<Rightarrow> int list \<Rightarrow> DocumentChunk list \<Rightarrow> py_error + DocumentChunk list"
where
  "select_loop chunks step [] selected = Inr selected"
| "select_loop chunks step (i # rest) selected =
     (let index = i * step in
      if index < int (length chunks) then
        (case py_getitem chunks index of
           Inl e \<Rightarrow> Inl e
         | Inr c \<Rightarrow> select_loop chunks step rest (selected @ [c]))
      else select_loop chunks step rest selected)"

text \<open>
  \<open>_select_diverse_chunks\<close>. \<open>len(chunks) // count\<close> raises \<open>ZeroDivisionError\<close>
  for \<open>count = 0\<close>; Python's floor division on integers is \<open>div\<close> on \<open>int\<close>.
  The parameter \<open>count\<close> is written \<open>cnt\<close> (the multiset library owns the name).
\<close>

definition select_diverse_chunks :: "DocumentChunk list \<Rightarrow> int \<Rightarrow> py_error + DocumentChunk list" where
  "select_diverse_chunks chunks cnt =
     (if int (length chunks) \<le> cnt then Inr chunks
      else if cnt = 0 then Inl ZeroDivisionError
      else select_loop chunks (int (length chunks) div cnt) (py_range cnt) [])"

definition mk_chunk :: "string \<Rightarrow> DocumentChunk" where
  "mk_chunk s = \<lparr>content = s, page_number = None, start_pos = None, end_pos = None, embedding = None\<rparr>"

section \<open>Retrieval (\<open>find_relevant_chunks\<close>)\<close>

subsection \<open>numpy scalars\<close>

text \<open>
  The value of a numpy float expression. The arithmetic is idealised to the reals; what
  the idealisation must not hide is the division: numpy does not raise on a zero
  divisor (it warns and goes on), the quotient is \<open>nan\<close> for \<open>0 / 0\<close> and an
  infinity otherwise. In HOL \<open>x / 0 = 0\<close>, so the zero divisor is a branch of its own.
  The divisor of the source is a product of norms, so it is never a negative zero.
\<close>

datatype npfloat = Fin real | PosInf | NegInf | NaN

definition np_divide :: "real \<Rightarrow> real \<Rightarrow> npfloat" where
  "np_divide a b =
     (if b \<noteq> 0 then Fin (a / b)
      else if a = 0 then NaN
      else if 0 < a then PosInf
      else NegInf)"

text \<open>\<open>a < b\<close> on floats: every comparison with \<open>nan\<close> is false.\<close>

fun np_less :: "npfloat \<Rightarrow> npfloat \<Rightarrow> bool" where
  "np_less (Fin a) (Fin b) = (a < b)"
| "np_less (Fin a) PosInf = True"
| "np_less NegInf (Fin b) = True"
| "np_less NegInf PosInf = True"
| "np_less _ _ = False"

definition inner_product :: "real list \<Rightarrow> real list \<Rightarrow> real" where
  "inner_product a b = sum_list (map (\<lambda>(x, y). x * y) (zip a b))"

text \<open>\<open>np.dot\<close> of two vectors: the shapes must agree.\<close>

definition np_dot :: "real list \<Rightarrow> real list \<Rightarrow> py_error + real" where
  "np_dot a b =
     (if length a = length b then Inr (inner_product a b)
      else Inl (ValueError ''shapes not aligned''))"

text \<open>\<open>np.linalg.norm\<close> of a vector.\<close>

definition np_norm :: "real list \<Rightarrow> real" where
  "np_norm a = sqrt (sum_list (map (\<lambda>x. x * x) a))"

subsection \<open>Python's \<open>list.sort\<close> and slicing\<close>

text \<open>
  \<open>xs.sort(key=f, reverse=True)\<close>. CPython reverses the list, sorts it ascending and
  stable, comparing keys with \<open><\<close> only, and reverses the result. The ascending sort
  is written as the insertion sort that takes the elements from left to right and puts
  each one behind the elements that are not greater. Where \<open><\<close> orders the keys totally
  every stable sort returns the same list. With a \<open>nan\<close> among the keys \<open><\<close> is no
  order, and what CPython returns then depends on the runs it detects and on its merges:
  for such keys this function agrees with CPython on lists of two elements (one run, left
  as it is), and nothing below relies on the order it gives longer ones.
\<close>

fun insort_lt :: "('a \<Rightarrow> npfloat) \<Rightarrow> 'a \<Rightarrow> 'a list \<Rightarrow> 'a list" where
  "insort_lt key x [] = [x]"
| "insort_lt key x (y # ys) =
     (if np_less (key x) (key y) then x # y # ys else y # insort_lt key x ys)"

definition py_sort_key :: "('a \<Rightarrow> npfloat) \<Rightarrow> 'a list \<Rightarrow> 'a list" where
  "py_sort_key key xs = foldl (\<lambda>sorted x. insort_lt key x sorted) [] xs"

definition py_sort_key_reverse :: "('a \<Rightarrow> npfloat) \<Rightarrow> 'a list \<Rightarrow> 'a list" where
  "py_sort_key_reverse key xs = rev (py_sort_key key (rev xs))"

text \<open>\<open>xs[:k]\<close>: a negative \<open>k\<close> drops the last \<open>-k\<close> elements.\<close>

definition py_slice_to :: "'a list \<Rightarrow> int \<Rightarrow> 'a list" where
  "py_slice_to xs k =
     (if 0 \<le> k then take (nat k) xs else take (nat (int (length xs) + k)) xs)"

subsection \<open>\<open>find_relevant_chunks\<close>\<close>

text \<open>
  The expression of lines 163 to 165 for one chunk, \<open>q\<close> being \<open>query_embedding[0]\<close>:
  \<open>np.dot(q, chunk.embedding) / (np.linalg.norm(q) * np.linalg.norm(chunk.embedding))\<close>.
  A chunk whose embedding is still \<open>None\<close> makes \<open>np.dot\<close> raise.
\<close>

definition chunk_similarity :: "real list \<Rightarrow> DocumentChunk \<Rightarrow> py_error + npfloat" where
  "chunk_similarity q chunk =
     (case embedding chunk of
        None \<Rightarrow> Inl TypeError
      | Some e \<Rightarrow>
          (case np_dot q e of
             Inl err \<Rightarrow> Inl err
           | Inr d \<Rightarrow> Inr (np_divide d (np_norm q * np_norm e))))"

text \<open>
  The \<open>for chunk in chunks\<close> loop, \<open>similarities\<close> being the accumulator.
  \<open>query_embedding[0]\<close> is evaluated inside the loop body.
\<close>

fun similarities_loop ::
  "real list list \<Rightarrow> DocumentChunk list \<Rightarrow> (DocumentChunk \<times> npfloat) list
     \<Rightarrow> py_error + (DocumentChunk \<times> npfloat) list"
where
  "similarities_loop query_embedding [] similarities = Inr similarities"
| "similarities_loop query_embedding (chunk # rest) similarities =
     (case py_getitem query_embedding 0 of
        Inl err \<Rightarrow> Inl err
      | Inr q \<Rightarrow>
          (case chunk_similarity q chunk of
             Inl err \<Rightarrow> Inl err
           | Inr similarity \<Rightarrow>
               similarities_loop query_embedding rest (similarities @ [(chunk, similarity)])))"

text \<open>
  \<open>find_relevant_chunks\<close>. The sentence-embedding model is outside the repository: its
  \<open>encode\<close>, from a list of texts to one vector per text, is the parameter
  \<open>embedding_model\<close>, taken as a function that returns.
\<close>

definition find_relevant_chunks ::
  "(string list \<Rightarrow> real list list) \<Rightarrow> DocumentChunk list \<Rightarrow> string \<Rightarrow> int
     \<Rightarrow> py_error + DocumentChunk list"
where
  "find_relevant_chunks embedding_model chunks query top_k =
     (let query_embedding = embedding_model [query] in
      case similarities_loop query_embedding chunks [] of
        Inl err \<Rightarrow> Inl err
      | Inr similarities \<Rightarrow>
          Inr (map fst (py_slice_to (py_sort_key_reverse snd similarities) top_k)))"

subsection \<open>What the retrieval claims speak of\<close>

text \<open>
  The chunk lists retrieval is meant for: the query has an embedding, and every chunk has
  one of the same dimension (the spec's "chunk sequence (already embedded)").
\<close>

definition embedded_like :: "real list \<Rightarrow> DocumentChunk \<Rightarrow> bool" where
  "embedded_like q chunk =
     (case embedding chunk of None \<Rightarrow> False | Some e \<Rightarrow> length e = length q)"

definition retrievable :: "(string list \<Rightarrow> real list list) \<Rightarrow> string \<Rightarrow> DocumentChunk list \<Rightarrow> bool" where
  "retrievable embedding_model query chunks =
     (case embedding_model [query] of
        [] \<Rightarrow> False
      | q # _ \<Rightarrow> list_all (embedded_like q) chunks)"

text \<open>
  \<open>chunk_similarity\<close> computes with real numbers what numpy computes with floats, and a
  float computation rounds: two chunks whose cosines are equal as real numbers can get
  different floats. A statement on the order of the result that is to hold of the program
  must therefore not depend on how the similarity is computed. The two definitions below
  are \<open>similarities_loop\<close> and \<open>find_relevant_chunks\<close> again, with the expression of
  lines 163 to 165 as the parameter \<open>similarity\<close>: from \<open>query_embedding[0]\<close> and the
  chunk to the float numpy returns, or to the exception it raises. In \<open>Fin r\<close> the real
  \<open>r\<close> is the number the float stands for.
\<close>

fun similarities_loop_with ::
  "(real list \<Rightarrow> DocumentChunk \<Rightarrow> py_error + npfloat) \<Rightarrow> real list list
     \<Rightarrow> DocumentChunk list \<Rightarrow> (DocumentChunk \<times> npfloat) list
     \<Rightarrow> py_error + (DocumentChunk \<times> npfloat) list"
where
  "similarities_loop_with similarity query_embedding [] similarities = Inr similarities"
| "similarities_loop_with similarity query_embedding (chunk # rest) similarities =
     (case py_getitem query_embedding 0 of
        Inl err \<Rightarrow> Inl err
      | Inr q \<Rightarrow>
          (case similarity q chunk of
             Inl err \<Rightarrow> Inl err
           | Inr value \<Rightarrow>
               similarities_loop_with similarity query_embedding rest
                 (similarities @ [(chunk, value)])))"

definition find_relevant_chunks_with ::
  "(real list \<Rightarrow> DocumentChunk \<Rightarrow> py_error + npfloat)
     \<Rightarrow> (string list \<Rightarrow> real list list) \<Rightarrow> DocumentChunk list \<Rightarrow> string \<Rightarrow> int
     \<Rightarrow> py_error + DocumentChunk list"
where
  "find_relevant_chunks_with similarity embedding_model chunks query top_k =
     (let query_embedding = embedding_model [query] in
      case similarities_loop_with similarity query_embedding chunks [] of
        Inl err \<Rightarrow> Inl err
      | Inr similarities \<Rightarrow>
          Inr (map fst (py_slice_to (py_sort_key_reverse snd similarities) top_k)))"

text \<open>\<open>a <= b\<close> on floats; like \<open><\<close> it never holds of a \<open>nan\<close>.\<close>

definition np_le :: "npfloat \<Rightarrow> npfloat \<Rightarrow> bool" where
  "np_le a b = (np_less a b \<or> (a = b \<and> a \<noteq> NaN))"

text \<open>
  The float a similarity computation returned, and whether it returned one that can be
  ordered: a float that is not \<open>nan\<close>.
\<close>

definition computed :: "py_error + npfloat \<Rightarrow> npfloat" where
  "computed r = (case r of Inl err \<Rightarrow> NaN | Inr value \<Rightarrow> value)"

definition ordered_value :: "py_error + npfloat \<Rightarrow> bool" where
  "ordered_value r = (case r of Inl err \<Rightarrow> False | Inr value \<Rightarrow> value \<noteq> NaN)"

definition zero_norm :: "DocumentChunk \<Rightarrow> bool" where
  "zero_norm chunk = (case embedding chunk of None \<Rightarrow> False | Some e \<Rightarrow> np_norm e = 0)"

text \<open>A chunk with a given text and embedding, and a model that embeds every text alike.\<close>

definition embedded_chunk :: "string \<Rightarrow> real list \<Rightarrow> DocumentChunk" where
  "embedded_chunk s e =
     \<lparr>content = s, page_number = None, start_pos = None, end_pos = None, embedding = Some e\<rparr>"

definition constant_model :: "real list \<Rightarrow> string list \<Rightarrow> real list list" where
  "constant_model v texts = map (\<lambda>_. v) texts"

section \<open>Text primitives\<close>

text \<open>
  Python strings are sequences of code points; a \<open>char\<close> stands for a code point below
  256, and the classes below are Python's for these code points: \<open>str.isspace\<close> (which is
  also what \<open>str.strip\<close> removes and what \<open>\s\<close> matches in a \<open>str\<close> pattern), and
  \<open>\w\<close>.
\<close>

abbreviation NL :: char where
  "NL \<equiv> CHR 0x0A"

definition is_space :: "char \<Rightarrow> bool" where
  "is_space c =
     (let n = (of_char c :: nat)
      in (9 \<le> n \<and> n \<le> 13) \<or> (28 \<le> n \<and> n \<le> 32) \<or> n = 133 \<or> n = 160)"

definition is_word :: "char \<Rightarrow> bool" where
  "is_word c =
     (let n = (of_char c :: nat)
      in (48 \<le> n \<and> n \<le> 57) \<or> (65 \<le> n \<and> n \<le> 90) \<or> n = 95 \<or> (97 \<le> n \<and> n \<le> 122)
         \<or> n = 170 \<or> n = 178 \<or> n = 179 \<or> n = 181 \<or> n = 185 \<or> n = 186
         \<or> (188 \<le> n \<and> n \<le> 190) \<or> (192 \<le> n \<and> n \<le> 214) \<or> (216 \<le> n \<and> n \<le> 246)
         \<or> 248 \<le> n)"

text \<open>\<open>str.lower\<close>, character by character.\<close>

definition lower_char :: "char \<Rightarrow> char" where
  "lower_char c =
     (let n = (of_char c :: nat)
      in if (65 \<le> n \<and> n \<le> 90) \<or> (192 \<le> n \<and> n \<le> 214) \<or> (216 \<le> n \<and> n \<le> 222)
         then char_of (n + 32) else c)"

definition lower :: "string \<Rightarrow> string" where
  "lower s = map lower_char s"

text \<open>\<open>str.strip()\<close>.\<close>

definition strip :: "string \<Rightarrow> string" where
  "strip s = rev (dropWhile is_space (rev (dropWhile is_space s)))"

text \<open>
  \<open>text.split('\n\n')\<close>: the text is cut at every occurrence of the separator, found from
  left to right; \<open>piece\<close> is the part read since the last cut. The result is never empty.
\<close>

fun split_blank :: "string \<Rightarrow> string \<Rightarrow> string list" where
  "split_blank piece [] = [piece]"
| "split_blank piece [c] = [piece @ [c]]"
| "split_blank piece (c # d # rest) =
     (if c = NL \<and> d = NL then piece # split_blank [] rest
      else split_blank (piece @ [c]) (d # rest))"

definition split_paragraphs :: "string \<Rightarrow> string list" where
  "split_paragraphs text = split_blank [] text"

text \<open>\<open>'\n\n'.join(ps)\<close>, in which the statements below speak of a text cut in paragraphs.\<close>

fun join_blank :: "string list \<Rightarrow> string" where
  "join_blank [] = []"
| "join_blank [p] = p"
| "join_blank (p # q # ps) = p @ [NL, NL] @ join_blank (q # ps)"

text \<open>\<open>str(n)\<close> for a natural number.\<close>

fun str_of_nat :: "nat \<Rightarrow> string" where
  "str_of_nat n =
     (if n < 10 then [char_of (48 + n)]
      else str_of_nat (n div 10) @ [char_of (48 + n mod 10)])"

declare str_of_nat.simps [simp del]

text \<open>\<open>xs[i:]\<close>: a negative \<open>i\<close> counts from the end.\<close>

definition py_slice_from :: "'a list \<Rightarrow> int \<Rightarrow> 'a list" where
  "py_slice_from xs i =
     (if 0 \<le> i then drop (nat i) xs else drop (nat (int (length xs) + i)) xs)"

section \<open>The document processor (\<open>utils/document_processor.py\<close>)\<close>

subsection \<open>What lies outside the repository\<close>

text \<open>
  The tokenizer (\<open>tiktoken\<close>): \<open>encode\<close> from a text to its tokens, \<open>decode\<close> back,
  both taken as functions that return. Nothing is supposed of them; what a statement
  needs of a tokenizer it says.
\<close>

record 'tok tokenizer =
  encode :: "string \<Rightarrow> 'tok list"
  decode :: "'tok list \<Rightarrow> string"

text \<open>\<open>settings.CHUNK_SIZE\<close> and \<open>settings.CHUNK_OVERLAP\<close>, read from the environment.\<close>

record settings =
  CHUNK_SIZE :: int
  CHUNK_OVERLAP :: int

text \<open>What \<open>open(...).read()\<close> does with a file: its text, a decoding error, or another failure.\<close>

datatype read_result = ReadText string | DecodeFailed | ReadFailed string

text \<open>
  The collaborators of \<open>process_document\<close>: \<open>Path(p).suffix\<close> of \<open>pathlib\<close>; the PDF
  reader, which gives the text of every page in page order (the empty text for a page
  without any) or raises with a message; the two ways of reading a text file; the
  tokenizer; the embedding model.
\<close>

record 'tok externals =
  ext_suffix :: "string \<Rightarrow> string"
  ext_pdf_pages :: "string \<Rightarrow> string + string list"
  ext_read_utf8 :: "string \<Rightarrow> read_result"
  ext_read_latin1 :: "string \<Rightarrow> read_result"
  ext_tokenizer :: "'tok tokenizer"
  ext_model :: "string list \<Rightarrow> real list list"

subsection \<open>Extraction\<close>

text \<open>The loop over \<open>enumerate(pdf_reader.pages)\<close>.\<close>

fun pdf_text_loop :: "nat \<Rightarrow> string list \<Rightarrow> string \<Rightarrow> string" where
  "pdf_text_loop page_num [] text = text"
| "pdf_text_loop page_num (page_text # pages) text =
     pdf_text_loop (page_num + 1) pages
       (if page_text \<noteq> []
        then text @ [NL] @ ''--- Page '' @ str_of_nat (page_num + 1) @ '' ---'' @ [NL] @ page_text
        else text)"

definition extract_text_from_pdf :: "'tok externals \<Rightarrow> string \<Rightarrow> py_error + string" where
  "extract_text_from_pdf ext file_path =
     (case ext_pdf_pages ext file_path of
        Inl msg \<Rightarrow> Inl (OtherError (''Error reading PDF: '' @ msg))
      | Inr pages \<Rightarrow> Inr (pdf_text_loop 0 pages []))"

definition extract_text_from_txt :: "'tok externals \<Rightarrow> string \<Rightarrow> py_error + string" where
  "extract_text_from_txt ext file_path =
     (case ext_read_utf8 ext file_path of
        ReadText text \<Rightarrow> Inr text
      | ReadFailed msg \<Rightarrow> Inl (ReadError msg)
      | DecodeFailed \<Rightarrow>
          (case ext_read_latin1 ext file_path of
             ReadText text \<Rightarrow> Inr text
           | ReadFailed msg \<Rightarrow> Inl (ReadError msg)
           | DecodeFailed \<Rightarrow> Inl (ReadError ''UnicodeDecodeError'')))"

subsection \<open>Cleaning\<close>

text \<open>\<open>re.sub(r'\s+', ' ', text)\<close>: every maximal run of whitespace becomes one space.\<close>

function collapse_whitespace :: "string \<Rightarrow> string" where
  "collapse_whitespace [] = []"
| "collapse_whitespace (c # s) =
     (if is_space c then CHR '' '' # collapse_whitespace (dropWhile is_space s)
      else c # collapse_whitespace s)"
  by pat_completeness auto
termination
  by (relation "measure length") (auto simp: length_dropWhile_le le_imp_less_Suc)

text \<open>
  \<open>re.sub(r'[^\w\s\.\!\?\,\;\:\-\(\)]', '', text)\<close>: the characters outside the class are
  deleted.
\<close>

definition kept_char :: "char \<Rightarrow> bool" where
  "kept_char c = (is_word c \<or> is_space c \<or> c \<in> set ''.!?,;:-()'')"

definition remove_special :: "string \<Rightarrow> string" where
  "remove_special text = filter kept_char text"

text \<open>\<open>re.sub(r'\n{3,}', '\n\n', text)\<close>: a run of three or more newlines becomes two.\<close>

function squeeze_newlines :: "string \<Rightarrow> string" where
  "squeeze_newlines [] = []"
| "squeeze_newlines (c # s) =
     (if c = NL then
        (if 2 \<le> length (takeWhile (\<lambda>d. d = NL) s) then [NL, NL]
         else NL # takeWhile (\<lambda>d. d = NL) s)
        @ squeeze_newlines (dropWhile (\<lambda>d. d = NL) s)
      else c # squeeze_newlines s)"
  by pat_completeness auto
termination
  by (relation "measure length") (auto simp: length_dropWhile_le le_imp_less_Suc)

definition clean_text :: "string \<Rightarrow> string" where
  "clean_text text = strip (squeeze_newlines (remove_special (collapse_whitespace text)))"

subsection \<open>Chunking\<close>

text \<open>\<open>_get_overlap_text\<close>.\<close>

definition get_overlap_text :: "'tok tokenizer \<Rightarrow> string \<Rightarrow> int \<Rightarrow> string" where
  "get_overlap_text tk text overlap_tokens =
     (let tokens = encode tk text in
      if int (length tokens) \<le> overlap_tokens then text
      else decode tk (py_slice_from tokens (- overlap_tokens)))"

text \<open>\<open>DocumentChunk(content=..., start_pos=..., end_pos=...)\<close>.\<close>

definition new_chunk :: "string \<Rightarrow> int \<Rightarrow> int \<Rightarrow> DocumentChunk" where
  "new_chunk s first_pos last_pos =
     \<lparr>content = s, page_number = None, start_pos = Some first_pos, end_pos = Some last_pos,
      embedding = None\<rparr>"

text \<open>
  One turn of the loop \<open>for paragraph in paragraphs\<close> of \<open>_create_chunks\<close>, on the four
  variables of the loop: \<open>chunks\<close>, \<open>current_chunk\<close>, \<open>current_tokens\<close> and \<open>start_pos\<close>
  (written \<open>pos\<close>, the chunk's field owning the name).
\<close>

type_synonym chunker_state = "DocumentChunk list \<times> string \<times> int \<times> int"

fun chunk_step :: "'tok tokenizer \<Rightarrow> settings \<Rightarrow> chunker_state \<Rightarrow> string \<Rightarrow> chunker_state" where
  "chunk_step tk cfg (chunks, current_chunk, current_tokens, pos) paragraph =
     (let paragraph_tokens = int (length (encode tk paragraph)) in
      if current_tokens + paragraph_tokens > CHUNK_SIZE cfg \<and> current_chunk \<noteq> [] then
        (let overlap_text = get_overlap_text tk current_chunk (CHUNK_OVERLAP cfg);
             next_chunk = overlap_text @ '' '' @ paragraph
         in (chunks @ [new_chunk (strip current_chunk) pos (pos + int (length current_chunk))],
             next_chunk,
             int (length (encode tk next_chunk)),
             pos + int (length next_chunk) - int (length overlap_text)))
      else
        (chunks,
         (if current_chunk \<noteq> [] then current_chunk @ [NL, NL] @ paragraph else paragraph),
         current_tokens + paragraph_tokens,
         pos))"

text \<open>The flush after the loop.\<close>

fun flush_chunk :: "chunker_state \<Rightarrow> DocumentChunk list" where
  "flush_chunk (chunks, current_chunk, current_tokens, pos) =
     (if current_chunk \<noteq> []
      then chunks @ [new_chunk (strip current_chunk) pos (pos + int (length current_chunk))]
      else chunks)"

definition chunk_loop :: "'tok tokenizer \<Rightarrow> settings \<Rightarrow> chunker_state \<Rightarrow> string list \<Rightarrow> chunker_state" where
  "chunk_loop tk cfg st paragraphs = foldl (chunk_step tk cfg) st paragraphs"

definition create_chunks :: "'tok tokenizer \<Rightarrow> settings \<Rightarrow> string \<Rightarrow> DocumentChunk list" where
  "create_chunks tk cfg text =
     flush_chunk (chunk_loop tk cfg ([], [], 0, 0) (split_paragraphs text))"

subsection \<open>Embedding and \<open>process_document\<close>\<close>

text \<open>
  \<open>_generate_embeddings\<close>: \<open>zip(chunks, embeddings)\<close> stops at the shorter of the two.
\<close>

fun assign_embeddings :: "DocumentChunk list \<Rightarrow> real list list \<Rightarrow> DocumentChunk list" where
  "assign_embeddings (chunk # chunks) (e # es) =
     chunk\<lparr>embedding := Some e\<rparr> # assign_embeddings chunks es"
| "assign_embeddings chunks [] = chunks"
| "assign_embeddings [] es = []"

definition generate_embeddings :: "(string list \<Rightarrow> real list list) \<Rightarrow> DocumentChunk list \<Rightarrow> DocumentChunk list" where
  "generate_embeddings model chunks = assign_embeddings chunks (model (map content chunks))"

text \<open>
  \<open>process_document\<close>. Beside its result the model returns the steps the call went into,
  in order: what ran before an exception, or before the return.
\<close>

datatype step = Extraction | Cleaning | Chunking | Embedding

definition process_document ::
  "'tok externals \<Rightarrow> settings \<Rightarrow> string \<Rightarrow> step list \<times> (py_error + DocumentChunk list)"
where
  "process_document ext cfg file_path =
     (let file_extension = lower (ext_suffix ext file_path) in
      case (if file_extension = ''.pdf'' then Inr (extract_text_from_pdf ext file_path)
            else if file_extension = ''.txt'' then Inr (extract_text_from_txt ext file_path)
            else Inl (ValueError (''Unsupported file format: '' @ file_extension))) of
        Inl err \<Rightarrow> ([], Inl err)
      | Inr (Inl err) \<Rightarrow> ([Extraction], Inl err)
      | Inr (Inr text) \<Rightarrow>
          ([Extraction, Cleaning, Chunking, Embedding],
           Inr (generate_embeddings (ext_model ext)
                  (create_chunks (ext_tokenizer ext) cfg (clean_text text)))))"

subsection \<open>Instances used in the examples\<close>

text \<open>The tokenizer whose tokens are the characters of the text.\<close>

definition char_tokenizer :: "char tokenizer" where
  "char_tokenizer = \<lparr>encode = (\<lambda>s. s), decode = (\<lambda>ts. ts)\<rparr>"

definition default_settings :: settings where
  "default_settings = \<lparr>CHUNK_SIZE = 1000, CHUNK_OVERLAP = 200\<rparr>"

text \<open>
  \<open>Path(p).suffix\<close> for a path whose part behind the last separator is a file name
  (the path ends neither in a separator nor in a component \<open>.\<close>, which pathlib would
  drop first): what follows the last dot of the name, the dot included, unless that dot
  is the first or the last character of the name. It is used at such paths only.
\<close>

definition last_component :: "string \<Rightarrow> string" where
  "last_component p = rev (takeWhile (\<lambda>c. c \<noteq> CHR ''/'') (rev p))"

definition plain_suffix :: "string \<Rightarrow> string" where
  "plain_suffix p =
     (let name = last_component p;
          tail = rev (takeWhile (\<lambda>c. c \<noteq> CHR ''.'') (rev name))
      in if CHR ''.'' \<in> set name \<and> tail \<noteq> [] \<and> length tail + 1 < length name
         then CHR ''.'' # tail else [])"

text \<open>A file system with one text file, and the collaborators over it.\<close>

definition one_file :: "string \<Rightarrow> string \<Rightarrow> char externals" where
  "one_file name text =
     \<lparr>ext_suffix = plain_suffix,
      ext_pdf_pages = (\<lambda>p. Inl ''No such file''),
      ext_read_utf8 = (\<lambda>p. if p = name then ReadText text else ReadFailed ''No such file''),
      ext_read_latin1 = (\<lambda>p. if p = name then ReadText text else ReadFailed ''No such file''),
      ext_tokenizer = char_tokenizer,
      ext_model = constant_model [1, 0]\<rparr>"

section \<open>What the chunker claims speak of\<close>

text \<open>A chunk has both offsets and \<open>startPos < endPos\<close>.\<close>

definition well_positioned :: "DocumentChunk \<Rightarrow> bool" where
  "well_positioned c =
     (case (start_pos c, end_pos c) of (Some s, Some e) \<Rightarrow> s < e | _ \<Rightarrow> False)"

text \<open>The \<open>startPos\<close> of the first chunk is at most that of the second.\<close>

definition starts_before :: "DocumentChunk \<Rightarrow> DocumentChunk \<Rightarrow> bool" where
  "starts_before a b =
     (case (start_pos a, start_pos b) of (Some s, Some t) \<Rightarrow> s \<le> t | _ \<Rightarrow> False)"

text \<open>\<open>endPos - startPos\<close>: the length of the buffer the chunk was cut from.\<close>

definition chunk_extent :: "DocumentChunk \<Rightarrow> int" where
  "chunk_extent c = (case (start_pos c, end_pos c) of (Some s, Some e) \<Rightarrow> e - s | _ \<Rightarrow> 0)"

text \<open>The number of tokens of a text.\<close>

definition token_count :: "'tok tokenizer \<Rightarrow> string \<Rightarrow> int" where
  "token_count tk s = int (length (encode tk s))"

text \<open>
  How a buffer of the chunker is made: a prefix (empty, or the overlap text of the buffer
  before it and a space) and the paragraphs that follow it, joined by blank lines.
\<close>

type_synonym buffer_parts = "string \<times> string list"

definition buffer_of :: "buffer_parts \<Rightarrow> string" where
  "buffer_of g = fst g @ join_blank (snd g)"

text \<open>
  What \<open>current_tokens\<close> counts for a buffer: the tokens of its opening piece (the
  prefix and the first paragraph, encoded together) and the tokens of each further
  paragraph, encoded alone.
\<close>

definition counted_tokens :: "'tok tokenizer \<Rightarrow> buffer_parts \<Rightarrow> int" where
  "counted_tokens tk g =
     token_count tk (fst g @ hd (snd g)) + sum_list (map (token_count tk) (tl (snd g)))"

text \<open>
  A sequence of buffers is linked when the first has the prefix \<open>pre\<close> and each later one
  has as prefix the overlap text of the buffer before it, followed by a space; none is
  without a paragraph.
\<close>

fun linked :: "'tok tokenizer \<Rightarrow> int \<Rightarrow> string \<Rightarrow> buffer_parts list \<Rightarrow> bool" where
  "linked tk overlap_tokens pre [] = True"
| "linked tk overlap_tokens pre (g # gs) =
     (fst g = pre \<and> snd g \<noteq> []
      \<and> linked tk overlap_tokens (get_overlap_text tk (buffer_of g) overlap_tokens @ '' '') gs)"

text \<open>
  The invariant of the loop on the offsets: the chunks finalized so far are well
  positioned and ordered, and none starts behind the running offset.
\<close>

definition positions_ok :: "chunker_state \<Rightarrow> bool" where
  "positions_ok st =
     (case st of (chunks, current_chunk, current_tokens, pos) \<Rightarrow>
        list_all well_positioned chunks \<and> sorted_wrt starts_before chunks
        \<and> (\<forall>c \<in> set chunks. \<exists>s. start_pos c = Some s \<and> s \<le> pos))"

text \<open>What a chunk shows of its buffer: the trimmed buffer and the buffer's length.\<close>

definition chunk_view :: "DocumentChunk \<Rightarrow> string \<times> int" where
  "chunk_view c = (content c, chunk_extent c)"

definition buffer_view :: "string \<Rightarrow> string \<times> int" where
  "buffer_view b = (strip b, int (length b))"

text \<open>
  The bound the loop keeps: a buffer that took a paragraph behind a blank line has at most
  \<open>CHUNK_SIZE\<close> counted tokens.
\<close>

definition within_budget :: "'tok tokenizer \<Rightarrow> settings \<Rightarrow> buffer_parts \<Rightarrow> bool" where
  "within_budget tk cfg g = (2 \<le> length (snd g) \<longrightarrow> counted_tokens tk g \<le> CHUNK_SIZE cfg)"

section \<open>Properties of diverse sampling\<close>

lemma select_loop_in_range:
  assumes "\<forall>i \<in> set idx. 0 \<le> i * step \<and> i * step < int (length chunks)"
  shows "select_loop chunks step idx acc = Inr (acc @ map (\<lambda>i. chunks ! nat (i * step)) idx)"
  using assms
proof (induction idx arbitrary: acc)
  case Nil
  then show ?case by simp
next
  case (Cons i rest)
  then have "py_getitem chunks (i * step) = Inr (chunks ! nat (i * step))"
    by (simp add: py_getitem_def)
  with Cons show ?case by simp
qed

lemma stride_in_range:
  fixes n c :: nat
  assumes "0 < c" "c < n" "i < c"
  shows "i * (n div c) < n"
proof -
  have "i * (n div c) < c * (n div c)"
    using assms by (simp add: div_greater_zero_iff)
  also have "\<dots> \<le> n" by simp
  finally show ?thesis .
qed

lemma subseq_map_nth:
  assumes "sorted_wrt (<) idx" "\<forall>i \<in> set idx. i < length xs"
  shows "subseq (map ((!) xs) idx) xs"
proof -
  have "map ((!) xs) idx = nths xs (set idx)"
    using assms
  proof (induction xs arbitrary: idx rule: rev_induct)
    case Nil
    then show ?case by (cases idx) auto
  next
    case (snoc x xs)
    show ?case
    proof (cases "length xs \<in> set idx")
      case False
      with snoc.prems have b: "\<forall>i \<in> set idx. i < length xs"
        by (metis length_append_singleton less_Suc_eq)
      then have "map ((!) (xs @ [x])) idx = map ((!) xs) idx"
        by (simp add: nth_append)
      moreover have "nths (xs @ [x]) (set idx) = nths xs (set idx)"
        using False by (simp add: nths_append)
      ultimately show ?thesis using snoc.IH [OF snoc.prems(1) b] by simp
    next
      case True
      then have ne: "idx \<noteq> []" by auto
      have lastmax: "\<forall>i \<in> set (butlast idx). i < last idx"
        using snoc.prems(1) ne
        by (metis append_butlast_last_id sorted_wrt_append list.set_intros(1))
      have "last idx = length xs"
      proof (rule ccontr)
        assume a: "last idx \<noteq> length xs"
        have "last idx \<in> set idx" using ne by simp
        with snoc.prems(2) a have "last idx < length xs" by fastforce
        moreover have "length xs \<in> set (butlast idx)"
          using True a ne by (metis append_butlast_last_id in_set_conv_decomp_last
              insert_iff list.set(2) rotate1.simps(2) set_rotate1)
        ultimately show False using lastmax by fastforce
      qed
      with lastmax have b: "\<forall>i \<in> set (butlast idx). i < length xs" by simp
      have s: "sorted_wrt (<) (butlast idx)"
        using snoc.prems(1) ne by (metis append_butlast_last_id sorted_wrt_append)
      have notin: "length xs \<notin> set (butlast idx)" using b by auto
      have idx: "idx = butlast idx @ [length xs]"
        using ne \<open>last idx = length xs\<close> by (metis append_butlast_last_id)
      have "map ((!) (xs @ [x])) idx = map ((!) xs) (butlast idx) @ [x]"
        using b by (subst idx) (simp add: nth_append)
      moreover have "nths (xs @ [x]) (set idx) = nths xs (set (butlast idx)) @ [x]"
      proof -
        have "nths xs (set idx) = nths xs (set (butlast idx))"
          by (subst idx) (auto simp: nths_def intro!: arg_cong [where f = "map fst"] filter_cong dest: set_zip_rightD)
        then show ?thesis using True by (simp add: nths_append)
      qed
      ultimately show ?thesis using snoc.IH [OF s b] by simp
    qed
  qed
  then show ?thesis by (simp add: subseq_conv_nths) blast
qed


text \<open>
  Claim C7, as the code has it. For every chunk list and every \<open>count \<ge> 1\<close>,
  \<open>_select_diverse_chunks\<close> returns without error exactly \<open>min(count, len(chunks))\<close>
  chunks, a subsequence of the input in document order: the input itself when
  \<open>len(chunks) \<le> count\<close>, otherwise the chunks at the indices \<open>0, step, 2*step, ...\<close>
  with \<open>step = len(chunks) // count\<close>. The result is a function of the two arguments,
  so repeated calls agree.
\<close>

theorem select_diverse_chunks_positive_count:
  assumes "1 \<le> cnt"
  shows "\<exists>sel. select_diverse_chunks chunks cnt = Inr sel
           \<and> int (length sel) = min cnt (int (length chunks))
           \<and> subseq sel chunks
           \<and> (if int (length chunks) \<le> cnt then sel = chunks
              else sel = map (\<lambda>i. chunks ! (i * (length chunks div nat cnt))) [0..<nat cnt])"
proof (cases "int (length chunks) \<le> cnt")
  case True
  then show ?thesis by (simp add: select_diverse_chunks_def)
next
  case False
  define n where "n = length chunks"
  define c where "c = nat cnt"
  have c: "0 < c" "c < n" "cnt = int c"
    using assms False by (auto simp: c_def n_def)
  have step: "int n div cnt = int (n div c)"
    using c by (simp add: zdiv_int)
  have rng: "\<forall>i \<in> set (py_range cnt). 0 \<le> i * int (n div c) \<and> i * int (n div c) < int n"
  proof
    fix i assume "i \<in> set (py_range cnt)"
    then obtain k where k: "i = int k" "k < c"
      by (auto simp: py_range_def c_def)
    have "k * (n div c) < n" using stride_in_range [OF c(1) c(2) k(2)] .
    then have "int k * int (n div c) < int n"
      by (metis of_nat_mult of_nat_less_iff)
    with k show "0 \<le> i * int (n div c) \<and> i * int (n div c) < int n" by simp
  qed
  have loop: "select_loop chunks (int (n div c)) (py_range cnt) []
      = Inr (map (\<lambda>i. chunks ! nat (i * int (n div c))) (py_range cnt))"
    using select_loop_in_range [of "py_range cnt" "int (n div c)" chunks "[]"] rng
    by (simp add: n_def)
  have idx: "map (\<lambda>i. chunks ! nat (i * int (n div c))) (py_range cnt)
      = map (\<lambda>i. chunks ! (i * (n div c))) [0..<c]"
    by (simp add: py_range_def c_def o_def nat_mult_distrib)
  define sel where "sel = map (\<lambda>i. chunks ! (i * (n div c))) [0..<c]"
  have res: "select_diverse_chunks chunks cnt = Inr sel"
    using False c loop idx step by (simp add: select_diverse_chunks_def sel_def n_def)
  have len: "int (length sel) = min cnt (int (length chunks))"
    using c by (simp add: sel_def n_def)
  have pos: "0 < n div c" using c by (simp add: div_greater_zero_iff)
  have sorted: "sorted_wrt (<) (map (\<lambda>i. i * (n div c)) [0..<c])"
    using pos by (simp add: sorted_wrt_map sorted_wrt_iff_nth_less)
  have inrange: "\<forall>j \<in> set (map (\<lambda>i. i * (n div c)) [0..<c]). j < length chunks"
    using stride_in_range [OF c(1) c(2)] by (auto simp: n_def)
  have "subseq (map ((!) chunks) (map (\<lambda>i. i * (n div c)) [0..<c])) chunks"
    by (rule subseq_map_nth [OF sorted inrange])
  then have sub: "subseq sel chunks" by (simp add: sel_def o_def)
  show ?thesis
    using res len sub False by (simp add: sel_def n_def c_def)
qed

theorem select_diverse_chunks_positive_count_witness:
  "(1::int) \<le> 2 \<and>
   select_diverse_chunks
     [mk_chunk ''a'', mk_chunk ''b'', mk_chunk ''c'', mk_chunk ''d'', mk_chunk ''e''] 2
     = Inr [mk_chunk ''a'', mk_chunk ''c'']"
proof -
  let ?cs = "[mk_chunk ''a'', mk_chunk ''b'', mk_chunk ''c'', mk_chunk ''d'', mk_chunk ''e'']"
  have h: "(1::int) \<le> 2" by simp
  from select_diverse_chunks_positive_count [OF h, of ?cs]
  obtain sel where r: "select_diverse_chunks ?cs 2 = Inr sel"
    and s: "sel = map (\<lambda>i. ?cs ! (i * (length ?cs div nat 2))) [0..<nat 2]"
    by auto
  have "[0..<nat 2] = [0, 1]" by (simp add: upt_rec)
  with s have "sel = [mk_chunk ''a'', mk_chunk ''c'']" by simp
  with r h show ?thesis by simp
qed

text \<open>
  With \<open>count = 0\<close> and a non-empty list the division \<open>len(chunks) // count\<close> raises
  \<open>ZeroDivisionError\<close> instead of returning \<open>min(0, 1) = 0\<close> chunks.
\<close>

theorem select_diverse_chunks_zero_count_counterexample:
  "select_diverse_chunks [mk_chunk ''a''] 0 = Inl ZeroDivisionError"
  by (simp add: select_diverse_chunks_def)

section \<open>Properties of retrieval\<close>

subsection \<open>The sort on finite keys\<close>

lemma set_insort_lt [simp]: "set (insort_lt key x ys) = insert x (set ys)"
  by (induction ys) auto

lemma mset_insort_lt [simp]: "mset (insort_lt key x ys) = add_mset x (mset ys)"
  by (induction ys) auto

lemma py_sort_key_snoc: "py_sort_key key (xs @ [x]) = insort_lt key x (py_sort_key key xs)"
  by (simp add: py_sort_key_def)

lemma mset_py_sort_key [simp]: "mset (py_sort_key key xs) = mset xs"
  by (induction xs rule: rev_induct) (simp_all add: py_sort_key_snoc, simp add: py_sort_key_def)

lemma mset_py_sort_key_reverse [simp]: "mset (py_sort_key_reverse key xs) = mset xs"
  by (simp add: py_sort_key_reverse_def)

lemma np_less_imp_le: "np_less a b \<Longrightarrow> np_le a b"
  by (simp add: np_le_def)

lemma np_le_total: "a \<noteq> NaN \<Longrightarrow> b \<noteq> NaN \<Longrightarrow> \<not> np_less a b \<Longrightarrow> np_le b a"
  by (cases a; cases b) (auto simp: np_le_def)

lemma np_le_trans: "np_le a b \<Longrightarrow> np_le b c \<Longrightarrow> np_le a c"
  by (cases a; cases b; cases c) (auto simp: np_le_def)

lemma np_less_le_neq: "np_less a b \<Longrightarrow> np_le b c \<Longrightarrow> a \<noteq> c"
  by (cases a; cases b; cases c) (auto simp: np_le_def)

lemma sorted_insort_lt:
  assumes "key x \<noteq> NaN" "\<forall>y \<in> set ys. key y \<noteq> NaN"
    and "sorted_wrt (\<lambda>a b. np_le (key a) (key b)) ys"
  shows "sorted_wrt (\<lambda>a b. np_le (key a) (key b)) (insort_lt key x ys)"
  using assms
proof (induction ys)
  case Nil
  then show ?case by simp
next
  case (Cons y ys)
  show ?case
  proof (cases "np_less (key x) (key y)")
    case True
    then have "np_le (key x) (key y)" by (rule np_less_imp_le)
    moreover have "\<forall>z \<in> set ys. np_le (key y) (key z)" using Cons.prems(3) by simp
    ultimately have "\<forall>z \<in> set (y # ys). np_le (key x) (key z)"
      using np_le_trans by auto
    with True Cons.prems(3) show ?thesis by simp
  next
    case False
    then have "np_le (key y) (key x)"
      using Cons.prems(1,2) by (intro np_le_total) simp_all
    moreover have "sorted_wrt (\<lambda>a b. np_le (key a) (key b)) (insort_lt key x ys)"
      using Cons by simp
    ultimately show ?thesis using False Cons.prems(3) by simp
  qed
qed

lemma filter_insort_lt:
  assumes "sorted_wrt (\<lambda>a b. np_le (key a) (key b)) ys"
  shows "filter (\<lambda>y. key y = s) (insort_lt key x ys)
           = filter (\<lambda>y. key y = s) ys @ (if key x = s then [x] else [])"
  using assms
proof (induction ys)
  case Nil
  then show ?case by simp
next
  case (Cons y ys)
  show ?case
  proof (cases "np_less (key x) (key y)")
    case True
    have "np_le (key y) (key y)" using True by (cases "key x"; cases "key y") (auto simp: np_le_def)
    with Cons.prems have "\<forall>z \<in> set (y # ys). np_le (key y) (key z)" by simp
    with True have "\<forall>z \<in> set (y # ys). key x \<noteq> key z"
      using np_less_le_neq by blast
    then have "key x = s \<Longrightarrow> filter (\<lambda>y. key y = s) (y # ys) = []"
      by (auto simp: filter_empty_conv)
    with True show ?thesis by auto
  next
    case False
    with Cons show ?thesis by auto
  qed
qed

lemma py_sort_key_ordered:
  assumes "\<forall>x \<in> set xs. key x \<noteq> NaN"
  shows "sorted_wrt (\<lambda>a b. np_le (key a) (key b)) (py_sort_key key xs)
       \<and> filter (\<lambda>y. key y = s) (py_sort_key key xs) = filter (\<lambda>y. key y = s) xs"
  using assms
proof (induction xs rule: rev_induct)
  case Nil
  then show ?case by (simp add: py_sort_key_def)
next
  case (snoc x xs)
  then have ih: "sorted_wrt (\<lambda>a b. np_le (key a) (key b)) (py_sort_key key xs)"
    "filter (\<lambda>y. key y = s) (py_sort_key key xs) = filter (\<lambda>y. key y = s) xs"
    by auto
  have kx: "key x \<noteq> NaN" using snoc.prems by simp
  have "set (py_sort_key key xs) = set xs"
    by (metis mset_py_sort_key set_mset_mset)
  then have ks: "\<forall>y \<in> set (py_sort_key key xs). key y \<noteq> NaN"
    using snoc.prems by simp
  show ?case
    using sorted_insort_lt [OF kx ks ih(1)] filter_insort_lt [OF ih(1), of s x] ih(2)
    by (simp add: py_sort_key_snoc)
qed

lemma py_sort_key_reverse_ordered:
  assumes "\<forall>x \<in> set xs. key x \<noteq> NaN"
  shows "sorted_wrt (\<lambda>a b. np_le (key b) (key a)) (py_sort_key_reverse key xs)"
    and "filter (\<lambda>y. key y = s) (py_sort_key_reverse key xs) = filter (\<lambda>y. key y = s) xs"
proof -
  have a: "\<forall>x \<in> set (rev xs). key x \<noteq> NaN" using assms by simp
  note p = py_sort_key_ordered [OF a, of s]
  show "sorted_wrt (\<lambda>a b. np_le (key b) (key a)) (py_sort_key_reverse key xs)"
    using p by (simp add: py_sort_key_reverse_def sorted_wrt_rev)
  have "filter (\<lambda>y. key y = s) (py_sort_key_reverse key xs)
      = rev (filter (\<lambda>y. key y = s) (py_sort_key key (rev xs)))"
    by (simp add: py_sort_key_reverse_def rev_filter)
  also have "\<dots> = filter (\<lambda>y. key y = s) xs"
    using p by (simp add: rev_filter)
  finally show "filter (\<lambda>y. key y = s) (py_sort_key_reverse key xs) = filter (\<lambda>y. key y = s) xs" .
qed

subsection \<open>The similarity loop\<close>

lemma similarities_loop_retrievable:
  assumes "list_all (embedded_like q) chunks"
  shows "similarities_loop (q # others) chunks acc =
           Inr (acc @ map (\<lambda>c. (c, np_divide (inner_product q (the (embedding c)))
                                      (np_norm q * np_norm (the (embedding c))))) chunks)"
  using assms
proof (induction chunks arbitrary: acc)
  case Nil
  then show ?case by simp
next
  case (Cons c chunks)
  from Cons.prems obtain e where e: "embedding c = Some e" "length e = length q"
    by (auto simp: embedded_like_def split: option.splits)
  have g: "py_getitem (q # others) 0 = Inr q" by (simp add: py_getitem_def)
  have s: "chunk_similarity q c = Inr (np_divide (inner_product q e) (np_norm q * np_norm e))"
    using e by (simp add: chunk_similarity_def np_dot_def)
  from Cons.prems have "list_all (embedded_like q) chunks" by simp
  from Cons.IH [OF this] g s e show ?case by simp
qed

lemma length_py_slice_to_all:
  "int (length xs) \<le> k \<Longrightarrow> py_slice_to xs k = xs"
  by (simp add: py_slice_to_def)

lemma similarities_of_retrievable:
  assumes "retrievable embedding_model query chunks"
  obtains q others where "embedding_model [query] = q # others"
    and "list_all (embedded_like q) chunks"
    and "similarities_loop (embedding_model [query]) chunks [] =
           Inr (map (\<lambda>c. (c, np_divide (inner_product q (the (embedding c)))
                                (np_norm q * np_norm (the (embedding c))))) chunks)"
proof -
  from assms obtain q others where q: "embedding_model [query] = q # others"
    and all: "list_all (embedded_like q) chunks"
    by (auto simp: retrievable_def split: list.splits)
  from similarities_loop_retrievable [OF all, of others "[]"] q all that show thesis
    by simp
qed

lemma sum_squares_zero: "sum_list (map (\<lambda>x. x * x) (e :: real list)) = 0 \<longleftrightarrow> (\<forall>x \<in> set e. x = 0)"
proof (induction e)
  case Nil
  then show ?case by simp
next
  case (Cons x e)
  have "0 \<le> sum_list (map (\<lambda>x. x * x) e)"
    by (rule sum_list_nonneg) auto
  then have "x * x + sum_list (map (\<lambda>x. x * x) e) = 0
      \<longleftrightarrow> x * x = 0 \<and> sum_list (map (\<lambda>x. x * x) e) = 0"
    by (intro add_nonneg_eq_0_iff) auto
  with Cons show ?case by simp
qed

lemma inner_product_zero_right:
  "\<forall>x \<in> set e. x = 0 \<Longrightarrow> inner_product q e = 0"
proof (induction e arbitrary: q)
  case Nil
  then show ?case by (simp add: inner_product_def)
next
  case (Cons x e)
  then show ?case by (cases q) (auto simp: inner_product_def)
qed

lemma zero_norm_similarity:
  assumes "np_norm e = 0"
  shows "np_divide (inner_product q e) (np_norm q * np_norm e) = NaN"
proof -
  from assms have "\<forall>x \<in> set e. x = 0"
    by (simp add: np_norm_def sum_squares_zero)
  then have "inner_product q e = 0" by (rule inner_product_zero_right)
  with assms show ?thesis by (simp add: np_divide_def)
qed

lemma similarities_loop_with_computed:
  assumes "list_all (\<lambda>c. ordered_value (similarity q c)) chunks"
  shows "similarities_loop_with similarity (q # others) chunks acc =
           Inr (acc @ map (\<lambda>c. (c, computed (similarity q c))) chunks)"
  using assms
proof (induction chunks arbitrary: acc)
  case Nil
  then show ?case by simp
next
  case (Cons c chunks)
  from Cons.prems obtain v where v: "similarity q c = Inr v"
    by (auto simp: ordered_value_def split: sum.splits)
  have g: "py_getitem (q # others) 0 = Inr q" by (simp add: py_getitem_def)
  from Cons.prems have "list_all (\<lambda>c. ordered_value (similarity q c)) chunks" by simp
  from Cons.IH [OF this] g v show ?case by (simp add: computed_def)
qed

lemma similarities_loop_exact:
  "similarities_loop query_embedding chunks acc
     = similarities_loop_with chunk_similarity query_embedding chunks acc"
  by (induction chunks arbitrary: acc) (auto split: sum.splits)

lemma find_relevant_chunks_exact:
  "find_relevant_chunks embedding_model chunks query top_k
     = find_relevant_chunks_with chunk_similarity embedding_model chunks query top_k"
  by (simp add: find_relevant_chunks_def find_relevant_chunks_with_def similarities_loop_exact)

section \<open>Properties of the text primitives\<close>

lemma is_space_NL [simp]: "is_space NL"
  by (simp add: is_space_def)

lemma is_space_blank [simp]: "is_space (CHR '' '')"
  by (simp add: is_space_def)

subsection \<open>Splitting and joining\<close>

lemma split_blank_not_Nil [simp]: "split_blank piece s \<noteq> []"
  by (induction piece s rule: split_blank.induct) auto

lemma join_blank_Cons: "ps \<noteq> [] \<Longrightarrow> join_blank (p # ps) = p @ [NL, NL] @ join_blank ps"
  by (cases ps) auto

lemma join_blank_snoc: "ps \<noteq> [] \<Longrightarrow> join_blank (ps @ [p]) = join_blank ps @ [NL, NL] @ p"
proof (induction ps rule: join_blank.induct)
  case 1
  then show ?case by simp
next
  case (2 q)
  then show ?case by simp
next
  case (3 a b ps)
  then show ?case by (simp add: join_blank_Cons)
qed

lemma join_split_blank: "join_blank (split_blank piece s) = piece @ s"
  by (induction piece s rule: split_blank.induct) (auto simp: join_blank_Cons)

lemma join_split_paragraphs: "join_blank (split_paragraphs text) = text"
  by (simp add: split_paragraphs_def join_split_blank)

lemma split_blank_no_newline:
  "NL \<notin> set s \<Longrightarrow> split_blank piece s = [piece @ s]"
  by (induction piece s rule: split_blank.induct) auto

lemma split_blank_at_separator:
  "NL \<notin> set p \<Longrightarrow> split_blank piece (p @ NL # NL # rest) = (piece @ p) # split_blank [] rest"
proof (induction p arbitrary: piece)
  case Nil
  then show ?case by simp
next
  case (Cons c p)
  then have c: "c \<noteq> NL" by auto
  show ?case
  proof (cases p)
    case Nil
    with c show ?thesis by simp
  next
    case (Cons d p')
    with c Cons.IH [of "piece @ [c]"] Cons.prems show ?thesis by simp
  qed
qed

lemma split_paragraphs_single:
  "NL \<notin> set text \<Longrightarrow> split_paragraphs text = [text]"
  by (simp add: split_paragraphs_def split_blank_no_newline)

subsection \<open>Stripping\<close>

lemma strip_Nil [simp]: "strip [] = []"
  by (simp add: strip_def)

lemma set_strip: "set (strip s) \<subseteq> set s"
proof -
  have "set (strip s) \<subseteq> set (dropWhile is_space s)"
    unfolding strip_def using set_dropWhileD by fastforce
  also have "\<dots> \<subseteq> set s"
    using set_dropWhileD by fastforce
  finally show ?thesis .
qed

lemma strip_id:
  assumes "s \<noteq> []" "\<not> is_space (hd s)" "\<not> is_space (last s)"
  shows "strip s = s"
proof -
  have a: "dropWhile is_space s = s"
    using assms(1,2) by (cases s) auto
  from assms(1) obtain xs x where s: "s = xs @ [x]"
    by (metis append_butlast_last_id)
  with assms(3) have "dropWhile is_space (rev s) = rev s" by simp
  with a show ?thesis by (simp add: strip_def)
qed

lemma strip_spaces_append:
  assumes "\<forall>c \<in> set a. is_space c"
  shows "strip (a @ s) = strip s"
  using assms by (simp add: strip_def dropWhile_append)

lemma prefix_rstrip: "prefix (rev (dropWhile is_space (rev u))) u"
proof -
  have "rev u = takeWhile is_space (rev u) @ dropWhile is_space (rev u)" by simp
  then have "u = rev (dropWhile is_space (rev u)) @ rev (takeWhile is_space (rev u))"
    by (metis rev_append rev_rev_ident)
  then show ?thesis by (metis prefixI)
qed

lemma prefix_rstrip_append:
  "prefix (rev (dropWhile is_space (rev u))) (rev (dropWhile is_space (rev (u @ w))))"
proof (cases "\<forall>c \<in> set w. is_space c")
  case True
  then have "dropWhile is_space (rev w @ rev u) = dropWhile is_space (rev u)"
    by (simp add: dropWhile_append)
  then show ?thesis by simp
next
  case False
  then have "dropWhile is_space (rev w @ rev u) = dropWhile is_space (rev w) @ rev u"
    by (auto simp: dropWhile_append)
  then have "rev (dropWhile is_space (rev (u @ w))) = u @ rev (dropWhile is_space (rev w))"
    by simp
  with prefix_rstrip [of u] show ?thesis
    by (metis prefix_order.order_trans prefixI)
qed

lemma prefix_strip_append: "prefix (strip a) (strip (a @ b))"
proof (cases "\<forall>c \<in> set a. is_space c")
  case True
  then have d: "dropWhile is_space a = []" by simp
  have "strip a = []" by (simp only: strip_def d rev.simps dropWhile.simps)
  then show ?thesis by simp
next
  case False
  then have "dropWhile is_space (a @ b) = dropWhile is_space a @ b"
    by (auto simp: dropWhile_append)
  then show ?thesis
    using prefix_rstrip_append [of "dropWhile is_space a" b] by (simp add: strip_def)
qed

lemma strip_strip [simp]: "strip (strip s) = strip s"
proof (cases "strip s = []")
  case True
  then show ?thesis by simp
next
  case False
  define u where "u = dropWhile is_space s"
  have t: "strip s = rev (dropWhile is_space (rev u))" by (simp add: strip_def u_def)
  with False have d: "dropWhile is_space (rev u) \<noteq> []" by simp
  then have "\<not> is_space (hd (dropWhile is_space (rev u)))" by (rule hd_dropWhile)
  then have l: "\<not> is_space (last (strip s))"
    using d by (simp add: t last_rev)
  from prefix_rstrip [of u] obtain w where w: "u = strip s @ w"
    unfolding t by (auto simp: prefix_def)
  with False have "u \<noteq> []" "hd (strip s) = hd u" by (cases "strip s"; simp)+
  moreover have "\<not> is_space (hd u)"
    using \<open>u \<noteq> []\<close> unfolding u_def by (rule hd_dropWhile)
  ultimately have h: "\<not> is_space (hd (strip s))" by simp
  from False h l show ?thesis by (rule strip_id)
qed

subsection \<open>Cleaning leaves no newline\<close>

lemma collapse_whitespace_no_newline: "NL \<notin> set (collapse_whitespace s)"
  by (induction s rule: collapse_whitespace.induct) auto

lemma squeeze_newlines_id: "NL \<notin> set s \<Longrightarrow> squeeze_newlines s = s"
  by (induction s rule: squeeze_newlines.induct) auto

lemma clean_text_no_newline: "NL \<notin> set (clean_text text)"
proof -
  have a: "NL \<notin> set (remove_special (collapse_whitespace text))"
    using collapse_whitespace_no_newline [of "text"] by (simp add: remove_special_def)
  then have "NL \<notin> set (squeeze_newlines (remove_special (collapse_whitespace text)))"
    by (simp add: squeeze_newlines_id)
  then show ?thesis
    unfolding clean_text_def using set_strip by fastforce
qed


lemma length_assign_embeddings [simp]: "length (assign_embeddings chunks es) = length chunks"
  by (induction chunks es rule: assign_embeddings.induct) auto

lemma content_assign_embeddings [simp]:
  "map content (assign_embeddings chunks es) = map content chunks"
  by (induction chunks es rule: assign_embeddings.induct) auto

section \<open>Properties of the chunker\<close>

lemma chunk_loop_Nil [simp]: "chunk_loop tk cfg st [] = st"
  by (simp add: chunk_loop_def)

lemma chunk_loop_Cons [simp]:
  "chunk_loop tk cfg st (p # ps) = chunk_loop tk cfg (chunk_step tk cfg st p) ps"
  by (simp add: chunk_loop_def)

lemma chunk_loop_snoc:
  "chunk_loop tk cfg st (ps @ [p]) = chunk_step tk cfg (chunk_loop tk cfg st ps) p"
  by (simp add: chunk_loop_def)

lemma chunk_step_empty_buffer:
  "chunk_step tk cfg (chunks, [], toks, pos) p
     = (chunks, p, toks + int (length (encode tk p)), pos)"
  by (simp add: Let_def)

lemma create_chunks_one_paragraph:
  assumes "split_paragraphs s = [s]"
  shows "create_chunks tk cfg s
           = (if s = [] then [] else [new_chunk (strip s) 0 (int (length s))])"
  using assms by (simp add: create_chunks_def chunk_step_empty_buffer del: chunk_step.simps)

subsection \<open>Offsets\<close>

lemma positions_ok_snoc:
  assumes "positions_ok (chunks, cur, toks, pos)" "cur \<noteq> []" "pos \<le> pos'"
  shows "positions_ok (chunks @ [new_chunk s pos (pos + int (length cur))], cur', toks', pos')"
proof -
  have w: "well_positioned (new_chunk s pos (pos + int (length cur)))"
    using assms(2) by (simp add: well_positioned_def new_chunk_def)
  have b: "\<forall>c \<in> set chunks. starts_before c (new_chunk s pos (pos + int (length cur)))"
    using assms(1) by (fastforce simp: positions_ok_def starts_before_def new_chunk_def)
  have le: "\<forall>c \<in> set chunks. \<exists>s. start_pos c = Some s \<and> s \<le> pos'"
    using assms(1,3) by (fastforce simp: positions_ok_def)
  show ?thesis
    using assms(1,3) w b le
    by (simp add: positions_ok_def sorted_wrt_append new_chunk_def)
qed

lemma positions_ok_step:
  assumes "positions_ok st"
  shows "positions_ok (chunk_step tk cfg st p)"
proof -
  obtain chunks cur toks pos where st: "st = (chunks, cur, toks, pos)"
    by (cases st) auto
  show ?thesis
  proof (cases "toks + int (length (encode tk p)) > CHUNK_SIZE cfg \<and> cur \<noteq> []")
    case True
    define ov where "ov = get_overlap_text tk cur (CHUNK_OVERLAP cfg)"
    have "pos \<le> pos + int (length (ov @ '' '' @ p)) - int (length ov)" by simp
    from positions_ok_snoc [OF assms [unfolded st] _ this] True
    show ?thesis by (simp add: st Let_def ov_def)
  next
    case False
    with assms show ?thesis by (auto simp: st Let_def positions_ok_def)
  qed
qed

lemma positions_ok_loop:
  "positions_ok st \<Longrightarrow> positions_ok (chunk_loop tk cfg st ps)"
  by (induction ps arbitrary: st) (simp_all add: positions_ok_step del: chunk_step.simps)

lemma positions_ok_flush:
  assumes "positions_ok st"
  shows "list_all well_positioned (flush_chunk st) \<and> sorted_wrt starts_before (flush_chunk st)"
proof -
  obtain chunks cur toks pos where st: "st = (chunks, cur, toks, pos)"
    by (cases st) auto
  show ?thesis
  proof (cases "cur = []")
    case True
    with assms show ?thesis by (simp add: st positions_ok_def)
  next
    case False
    from positions_ok_snoc [OF assms [unfolded st] False order_refl, of "strip cur" cur toks]
    show ?thesis using False by (simp add: st positions_ok_def)
  qed
qed

subsection \<open>How the buffers are made\<close>

lemma chunk_view_new_chunk:
  "chunk_view (new_chunk (strip cur) pos (pos + int (length cur))) = buffer_view cur"
  by (simp add: chunk_view_def buffer_view_def chunk_extent_def new_chunk_def)

lemma counted_tokens_snoc:
  "qs \<noteq> [] \<Longrightarrow>
     counted_tokens tk (pre, qs @ [p]) = counted_tokens tk (pre, qs) + token_count tk p"
  by (cases qs) (simp_all add: counted_tokens_def)

lemma buffer_of_snoc:
  "qs \<noteq> [] \<Longrightarrow> buffer_of (pre, qs @ [p]) = buffer_of (pre, qs) @ [NL, NL] @ p"
  by (simp add: buffer_of_def join_blank_snoc)

lemma layout_from_buffer:
  assumes "qs \<noteq> []" "cur = buffer_of (pre, qs)" "cur \<noteq> []"
    and "counted_tokens tk (pre, qs) \<le> toks"
    and "2 \<le> length qs \<longrightarrow> toks \<le> CHUNK_SIZE cfg"
  shows "\<exists>groups. linked tk (CHUNK_OVERLAP cfg) pre groups
           \<and> concat (map snd groups) = qs @ ps
           \<and> map chunk_view (flush_chunk (chunk_loop tk cfg (chunks, cur, toks, pos) ps))
               = map chunk_view chunks @ map (\<lambda>g. buffer_view (buffer_of g)) groups
           \<and> list_all (within_budget tk cfg) groups"
  using assms
proof (induction ps arbitrary: chunks cur toks pos pre qs)
  case Nil
  have "linked tk (CHUNK_OVERLAP cfg) pre [(pre, qs)]" using Nil.prems(1) by simp
  moreover have "within_budget tk cfg (pre, qs)"
    using Nil.prems(4,5) by (auto simp: within_budget_def)
  moreover have "map chunk_view (flush_chunk (chunk_loop tk cfg (chunks, cur, toks, pos) []))
      = map chunk_view chunks @ map (\<lambda>g. buffer_view (buffer_of g)) [(pre, qs)]"
    using Nil.prems(2,3) by (simp add: chunk_view_new_chunk)
  ultimately show ?case
    by (intro exI [of _ "[(pre, qs)]"]) simp
next
  case (Cons p ps)
  show ?case
  proof (cases "toks + token_count tk p > CHUNK_SIZE cfg")
    case True
    define ov where "ov = get_overlap_text tk cur (CHUNK_OVERLAP cfg)"
    define nxt where "nxt = ov @ '' '' @ p"
    define c where "c = new_chunk (strip cur) pos (pos + int (length cur))"
    have step: "chunk_step tk cfg (chunks, cur, toks, pos) p
        = (chunks @ [c], nxt, token_count tk nxt, pos + int (length nxt) - int (length ov))"
      using True Cons.prems(3)
      by (simp add: Let_def token_count_def ov_def nxt_def c_def)
    have b: "nxt = buffer_of (ov @ '' '', [p])" by (simp add: buffer_of_def nxt_def)
    have ne: "nxt \<noteq> []" by (simp add: nxt_def)
    have ct: "counted_tokens tk (ov @ '' '', [p]) \<le> token_count tk nxt"
      by (simp add: counted_tokens_def nxt_def)
    have two: "2 \<le> length [p] \<longrightarrow> token_count tk nxt \<le> CHUNK_SIZE cfg" by simp
    from Cons.IH [of "[p]" nxt "ov @ '' ''" "token_count tk nxt" "chunks @ [c]"
        "pos + int (length nxt) - int (length ov)", OF _ b ne ct two]
    obtain groups where g: "linked tk (CHUNK_OVERLAP cfg) (ov @ '' '') groups"
      "concat (map snd groups) = [p] @ ps"
      "map chunk_view (flush_chunk (chunk_loop tk cfg
          (chunks @ [c], nxt, token_count tk nxt, pos + int (length nxt) - int (length ov)) ps))
        = map chunk_view (chunks @ [c]) @ map (\<lambda>g. buffer_view (buffer_of g)) groups"
      "list_all (within_budget tk cfg) groups"
      by auto
    have l: "linked tk (CHUNK_OVERLAP cfg) pre ((pre, qs) # groups)"
      using g(1) Cons.prems(1,2) by (simp add: ov_def)
    have w: "within_budget tk cfg (pre, qs)"
      using Cons.prems(4,5) by (auto simp: within_budget_def)
    have v: "map chunk_view (flush_chunk (chunk_loop tk cfg (chunks, cur, toks, pos) (p # ps)))
        = map chunk_view chunks @ map (\<lambda>g. buffer_view (buffer_of g)) ((pre, qs) # groups)"
      using g(3) step Cons.prems(2)
      by (simp del: chunk_step.simps add: c_def chunk_view_new_chunk)
    show ?thesis
      using l w v g(2,4) by (intro exI [of _ "(pre, qs) # groups"]) simp
  next
    case False
    have step: "chunk_step tk cfg (chunks, cur, toks, pos) p
        = (chunks, cur @ [NL, NL] @ p, toks + token_count tk p, pos)"
      using False Cons.prems(3) by (simp add: Let_def token_count_def)
    have b: "cur @ [NL, NL] @ p = buffer_of (pre, qs @ [p])"
      using Cons.prems(1,2) by (simp add: buffer_of_snoc)
    have ne: "cur @ [NL, NL] @ p \<noteq> []" by simp
    have ct: "counted_tokens tk (pre, qs @ [p]) \<le> toks + token_count tk p"
      using Cons.prems(1,4) by (simp add: counted_tokens_snoc)
    have two: "2 \<le> length (qs @ [p]) \<longrightarrow> toks + token_count tk p \<le> CHUNK_SIZE cfg"
      using False by simp
    have q: "qs @ [p] \<noteq> []" by simp
    from Cons.IH [OF q b ne ct two, of chunks pos] step
    show ?thesis by (simp del: chunk_step.simps)
  qed
qed

lemma layout_from_start:
  assumes "0 \<le> toks"
  shows "\<exists>groups. linked tk (CHUNK_OVERLAP cfg) [] groups
           \<and> concat (map snd groups) = dropWhile (\<lambda>p. p = []) ps
           \<and> map chunk_view (flush_chunk (chunk_loop tk cfg ([], [], toks, pos) ps))
               = map (\<lambda>g. buffer_view (buffer_of g)) groups
           \<and> list_all (within_budget tk cfg) groups"
  using assms
proof (induction ps arbitrary: toks)
  case Nil
  show ?case by (intro exI [of _ "[]"]) simp
next
  case (Cons p ps)
  have step: "chunk_step tk cfg ([], [], toks, pos) p = ([], p, toks + token_count tk p, pos)"
    by (simp add: chunk_step_empty_buffer token_count_def del: chunk_step.simps)
  have nn: "0 \<le> toks + token_count tk p"
    using Cons.prems by (simp add: token_count_def)
  show ?case
  proof (cases "p = []")
    case True
    with Cons.IH [OF nn] step show ?thesis by (simp del: chunk_step.simps)
  next
    case False
    have b: "p = buffer_of ([], [p])" by (simp add: buffer_of_def)
    have ct: "counted_tokens tk ([], [p]) \<le> toks + token_count tk p"
      using Cons.prems by (simp add: counted_tokens_def)
    have two: "2 \<le> length [p] \<longrightarrow> toks + token_count tk p \<le> CHUNK_SIZE cfg" by simp
    have q: "[p] \<noteq> []" by simp
    from layout_from_buffer [OF q b False ct two, of ps "[]" pos] step False
    show ?thesis by (simp del: chunk_step.simps)
  qed
qed

lemma create_chunks_layout:
  "\<exists>groups. linked tk (CHUNK_OVERLAP cfg) [] groups
     \<and> concat (map snd groups) = dropWhile (\<lambda>p. p = []) (split_paragraphs text)
     \<and> map chunk_view (create_chunks tk cfg text) = map (\<lambda>g. buffer_view (buffer_of g)) groups
     \<and> list_all (within_budget tk cfg) groups"
  unfolding create_chunks_def by (rule layout_from_start) simp

lemma linked_nth:
  assumes "linked tk ov pre groups" "Suc i < length groups"
  shows "fst (groups ! Suc i) = get_overlap_text tk (buffer_of (groups ! i)) ov @ '' ''"
  using assms
proof (induction groups arbitrary: pre i)
  case Nil
  then show ?case by simp
next
  case (Cons g groups)
  show ?case
  proof (cases i)
    case 0
    with Cons.prems show ?thesis by (cases groups) auto
  next
    case (Suc j)
    with Cons.prems Cons.IH [of _ j] show ?thesis by auto
  qed
qed

section \<open>Claims on retrieval\<close>

text \<open>
  Claim C5, as the code has it. Take a query that has an embedding \<open>q\<close>, a \<open>topK \<ge> 0\<close>
  and a chunk list on which the code computes a similarity
  \<open>dot(q, c) / (||q|| * ||c||)\<close> for every chunk, none of them \<open>nan\<close>. Then
  \<open>find_relevant_chunks\<close> returns the first \<open>topK\<close> elements of the ranking of the
  chunks: the ranking holds exactly the chunks of the list, the computed similarities
  descend along it, and chunks whose computed similarities are equal keep the order they
  have in the document. This holds however numpy rounds: the similarity computation is a
  parameter.
\<close>

theorem find_relevant_chunks_ranked:
  assumes "embedding_model [query] = q # others"
    and "list_all (\<lambda>c. ordered_value (similarity q c)) chunks"
    and "0 \<le> top_k"
  shows "\<exists>ranked.
           find_relevant_chunks_with similarity embedding_model chunks query top_k
             = Inr (take (nat top_k) ranked)
         \<and> mset ranked = mset chunks
         \<and> sorted_wrt (\<lambda>a b. np_le (computed (similarity q b)) (computed (similarity q a))) ranked
         \<and> (\<forall>s. filter (\<lambda>c. computed (similarity q c) = s) ranked
                = filter (\<lambda>c. computed (similarity q c) = s) chunks)"
proof -
  define sims where "sims = map (\<lambda>c. (c, computed (similarity q c))) chunks"
  define key where "key = (\<lambda>p :: DocumentChunk \<times> npfloat. computed (similarity q (fst p)))"
  define sorted_sims where "sorted_sims = py_sort_key_reverse snd sims"
  have loop: "similarities_loop_with similarity (embedding_model [query]) chunks [] = Inr sims"
    using similarities_loop_with_computed [of similarity q chunks others "[]"] assms(1,2)
    by (simp add: sims_def)
  have snd_key: "\<forall>p \<in> set sims. snd p = key p"
    by (auto simp: sims_def key_def)
  have keys: "\<forall>p \<in> set sims. snd p \<noteq> NaN"
    using assms(2)
    by (auto simp: sims_def list_all_iff ordered_value_def computed_def split: sum.splits)
  have fst_sims: "map fst sims = chunks" by (simp add: sims_def o_def)
  have res: "find_relevant_chunks_with similarity embedding_model chunks query top_k
      = Inr (take (nat top_k) (map fst sorted_sims))"
    using loop assms(3)
    by (simp add: find_relevant_chunks_with_def sorted_sims_def py_slice_to_def take_map)
  have ms: "mset sorted_sims = mset sims" by (simp add: sorted_sims_def)
  then have same_set: "set sorted_sims = set sims" by (metis set_mset_mset)
  have "mset (map fst sorted_sims) = mset (map fst sims)"
    by (simp add: ms)
  then have m: "mset (map fst sorted_sims) = mset chunks" by (simp only: fst_sims)
  have "sorted_wrt (\<lambda>a b. np_le (snd b) (snd a)) sorted_sims"
    unfolding sorted_sims_def by (rule py_sort_key_reverse_ordered(1) [OF keys])
  then have "sorted_wrt (\<lambda>a b. np_le (key b) (key a)) sorted_sims"
    by (rule sorted_wrt_mono_rel [rotated]) (use snd_key same_set in auto)
  then have srt: "sorted_wrt (\<lambda>a b. np_le (computed (similarity q b)) (computed (similarity q a)))
      (map fst sorted_sims)"
    by (simp add: sorted_wrt_map key_def)
  have stable: "filter (\<lambda>c. computed (similarity q c) = s) (map fst sorted_sims)
      = filter (\<lambda>c. computed (similarity q c) = s) chunks" for s
  proof -
    have k1: "filter (\<lambda>p. key p = s) sorted_sims = filter (\<lambda>p. snd p = s) sorted_sims"
      by (rule filter_cong) (use snd_key same_set in auto)
    have k2: "filter (\<lambda>p. snd p = s) sims = filter (\<lambda>p. key p = s) sims"
      by (rule filter_cong) (use snd_key in auto)
    have "filter (\<lambda>c. computed (similarity q c) = s) (map fst sorted_sims)
        = map fst (filter (\<lambda>p. key p = s) sorted_sims)"
      by (simp add: filter_map o_def key_def)
    also have "\<dots> = map fst (filter (\<lambda>p. snd p = s) sorted_sims)"
      by (simp only: k1)
    also have "\<dots> = map fst (filter (\<lambda>p. snd p = s) sims)"
      unfolding sorted_sims_def by (simp only: py_sort_key_reverse_ordered(2) [OF keys])
    also have "\<dots> = map fst (filter (\<lambda>p. key p = s) sims)"
      by (simp only: k2)
    also have "\<dots> = filter (\<lambda>c. computed (similarity q c) = s) (map fst sims)"
      by (simp add: filter_map o_def key_def)
    finally show ?thesis by (simp only: fst_sims)
  qed
  show ?thesis
    using res m srt stable by (intro exI [of _ "map fst sorted_sims"]) simp
qed

theorem find_relevant_chunks_ranked_witness:
  "constant_model [1, 0] [''q''] = [[1, 0]]
   \<and> ordered_value (chunk_similarity [1, 0] (embedded_chunk ''a'' [0, 1]))
   \<and> ordered_value (chunk_similarity [1, 0] (embedded_chunk ''b'' [3, 4]))
   \<and> ordered_value (chunk_similarity [1, 0] (embedded_chunk ''c'' [2, 0]))
   \<and> ordered_value (chunk_similarity [1, 0] (embedded_chunk ''d'' [1, 0]))
   \<and> (\<exists>ranked.
         find_relevant_chunks_with chunk_similarity (constant_model [1, 0])
           [embedded_chunk ''a'' [0, 1], embedded_chunk ''b'' [3, 4], embedded_chunk ''c'' [2, 0],
            embedded_chunk ''d'' [1, 0]] ''q'' 3 = Inr (take (nat 3) ranked)
         \<and> mset ranked = mset [embedded_chunk ''a'' [0, 1], embedded_chunk ''b'' [3, 4],
                                embedded_chunk ''c'' [2, 0], embedded_chunk ''d'' [1, 0]])
   \<and> find_relevant_chunks_with chunk_similarity (constant_model [1, 0])
        [embedded_chunk ''a'' [0, 1], embedded_chunk ''b'' [3, 4], embedded_chunk ''c'' [2, 0],
         embedded_chunk ''d'' [1, 0]] ''q'' 3
       = Inr [embedded_chunk ''c'' [2, 0], embedded_chunk ''d'' [1, 0], embedded_chunk ''b'' [3, 4]]"
proof -
  let ?m = "constant_model [1, 0]"
  let ?cs = "[embedded_chunk ''a'' [0, 1], embedded_chunk ''b'' [3, 4],
              embedded_chunk ''c'' [2, 0], embedded_chunk ''d'' [1, 0]]"
  have sq: "sqrt 25 = 5" "sqrt 4 = 2"
    using real_sqrt_abs [of 5] real_sqrt_abs [of 2] by simp_all
  have h1: "?m [''q''] = [1, 0] # []" by (simp add: constant_model_def)
  have h3: "(0::int) \<le> 3" by simp
  have o: "ordered_value (chunk_similarity [1, 0] (embedded_chunk ''a'' [0, 1]))"
    "ordered_value (chunk_similarity [1, 0] (embedded_chunk ''b'' [3, 4]))"
    "ordered_value (chunk_similarity [1, 0] (embedded_chunk ''c'' [2, 0]))"
    "ordered_value (chunk_similarity [1, 0] (embedded_chunk ''d'' [1, 0]))"
    by (simp_all add: ordered_value_def chunk_similarity_def embedded_chunk_def np_dot_def
        inner_product_def np_norm_def np_divide_def sq)
  then have h2: "list_all (\<lambda>c. ordered_value (chunk_similarity [1, 0] c)) ?cs" by simp
  from find_relevant_chunks_ranked
    [where similarity = chunk_similarity and q = "[1, 0]" and embedding_model = ?m
       and query = "''q''" and others = "[]" and chunks = ?cs and top_k = 3] h1 h2 h3
  have c: "\<exists>ranked. find_relevant_chunks_with chunk_similarity ?m ?cs ''q'' 3
           = Inr (take (nat 3) ranked)
         \<and> mset ranked = mset ?cs"
    by blast
  have e: "find_relevant_chunks_with chunk_similarity ?m ?cs ''q'' 3
       = Inr [embedded_chunk ''c'' [2, 0], embedded_chunk ''d'' [1, 0], embedded_chunk ''b'' [3, 4]]"
    by (simp add: find_relevant_chunks_with_def constant_model_def py_getitem_def
        chunk_similarity_def embedded_chunk_def np_dot_def inner_product_def np_norm_def
        np_divide_def py_sort_key_reverse_def py_sort_key_def py_slice_to_def sq)
  from h1 have h1': "?m [''q''] = [[1, 0]]" by simp
  show ?thesis using h1' o c e by (intro conjI)
qed

text \<open>
  The query vector is \<open>[1, 0]\<close>, the chunk \<open>z\<close> has the embedding \<open>[0, 0]\<close>, the chunk
  \<open>a\<close> the embedding \<open>[1, 0]\<close>; on these vectors the float computation is exact. The
  similarity of \<open>a\<close> is \<open>1\<close> and that of \<open>z\<close> is \<open>nan\<close>, and \<open>z\<close> is returned ahead
  of \<open>a\<close>: the result does not descend, for \<open>1 <= nan\<close> does not hold.
\<close>

theorem find_relevant_chunks_ranked_counterexample:
  "find_relevant_chunks_with chunk_similarity (constant_model [1, 0])
     [embedded_chunk ''z'' [0, 0], embedded_chunk ''a'' [1, 0]] ''q'' 5
     = Inr [embedded_chunk ''z'' [0, 0], embedded_chunk ''a'' [1, 0]]
   \<and> chunk_similarity [1, 0] (embedded_chunk ''z'' [0, 0]) = Inr NaN
   \<and> chunk_similarity [1, 0] (embedded_chunk ''a'' [1, 0]) = Inr (Fin 1)
   \<and> \<not> np_le (Fin 1) NaN"
  by (simp add: find_relevant_chunks_with_def constant_model_def py_getitem_def
      chunk_similarity_def embedded_chunk_def np_dot_def inner_product_def np_norm_def
      np_divide_def py_sort_key_reverse_def py_sort_key_def py_slice_to_def np_le_def)

text \<open>
  Claim C6. On an empty chunk list \<open>find_relevant_chunks\<close> returns the empty list, and on
  a list of embedded chunks with \<open>topK\<close> above the number of chunks it returns, without
  error, all the chunks of the list (each as often as the list has it).
\<close>

theorem find_relevant_chunks_top_k_clamp:
  "find_relevant_chunks embedding_model [] query top_k = Inr []
   \<and> (retrievable embedding_model query chunks \<and> int (length chunks) < top_k \<longrightarrow>
        (\<exists>found. find_relevant_chunks embedding_model chunks query top_k = Inr found
           \<and> mset found = mset chunks \<and> length found = length chunks))"
proof (intro conjI impI)
  show "find_relevant_chunks embedding_model [] query top_k = Inr []"
    by (simp add: find_relevant_chunks_def py_sort_key_reverse_def py_sort_key_def py_slice_to_def)
next
  assume a: "retrievable embedding_model query chunks \<and> int (length chunks) < top_k"
  then obtain q others where
    loop: "similarities_loop (embedding_model [query]) chunks [] =
           Inr (map (\<lambda>c. (c, np_divide (inner_product q (the (embedding c)))
                                (np_norm q * np_norm (the (embedding c))))) chunks)"
    using similarities_of_retrievable [of embedding_model query chunks] by metis
  define sims where "sims = map (\<lambda>c. (c, np_divide (inner_product q (the (embedding c)))
                                (np_norm q * np_norm (the (embedding c))))) chunks"
  define sorted_sims where "sorted_sims = py_sort_key_reverse snd sims"
  have fst_sims: "map fst sims = chunks" by (simp add: sims_def o_def)
  have "mset (map fst sorted_sims) = mset (map fst sims)"
    by (simp add: sorted_sims_def)
  then have m: "mset (map fst sorted_sims) = mset chunks" by (simp only: fst_sims)
  then have len: "length (map fst sorted_sims) = length chunks"
    by (metis size_mset)
  then have "py_slice_to sorted_sims top_k = sorted_sims"
    using a by (intro length_py_slice_to_all) simp
  then have "find_relevant_chunks embedding_model chunks query top_k = Inr (map fst sorted_sims)"
    using loop by (simp add: find_relevant_chunks_def sims_def sorted_sims_def)
  with m len show "\<exists>found. find_relevant_chunks embedding_model chunks query top_k = Inr found
           \<and> mset found = mset chunks \<and> length found = length chunks"
    by blast
qed

theorem find_relevant_chunks_top_k_clamp_witness:
  "retrievable (constant_model [1, 0]) ''q''
     [embedded_chunk ''a'' [0, 1], embedded_chunk ''b'' [1, 0]]
   \<and> int (length [embedded_chunk ''a'' [0, 1], embedded_chunk ''b'' [1, 0]]) < 5
   \<and> (\<exists>found. find_relevant_chunks (constant_model [1, 0])
          [embedded_chunk ''a'' [0, 1], embedded_chunk ''b'' [1, 0]] ''q'' 5 = Inr found
        \<and> mset found = mset [embedded_chunk ''a'' [0, 1], embedded_chunk ''b'' [1, 0]]
        \<and> length found = length [embedded_chunk ''a'' [0, 1], embedded_chunk ''b'' [1, 0]])
   \<and> find_relevant_chunks (constant_model [1, 0])
        [embedded_chunk ''a'' [0, 1], embedded_chunk ''b'' [1, 0]] ''q'' 5
       = Inr [embedded_chunk ''b'' [1, 0], embedded_chunk ''a'' [0, 1]]"
proof -
  let ?m = "constant_model [1, 0]"
  let ?cs = "[embedded_chunk ''a'' [0, 1], embedded_chunk ''b'' [1, 0]]"
  have h1: "retrievable ?m ''q'' ?cs"
    by (simp add: retrievable_def constant_model_def embedded_like_def embedded_chunk_def)
  have h2: "int (length ?cs) < 5" by simp
  from find_relevant_chunks_top_k_clamp [of ?m "''q''" 5 ?cs] h1 h2
  have c: "\<exists>found. find_relevant_chunks ?m ?cs ''q'' 5 = Inr found
        \<and> mset found = mset ?cs \<and> length found = length ?cs"
    by blast
  have e: "find_relevant_chunks ?m ?cs ''q'' 5
       = Inr [embedded_chunk ''b'' [1, 0], embedded_chunk ''a'' [0, 1]]"
    by (simp add: find_relevant_chunks_def constant_model_def py_getitem_def
        chunk_similarity_def embedded_chunk_def np_dot_def inner_product_def np_norm_def
        np_divide_def py_sort_key_reverse_def py_sort_key_def py_slice_to_def)
  show ?thesis using h1 h2 c e by (intro conjI)
qed

text \<open>
  Claim C1, as the code has it. For a query and a list of embedded chunks,
  \<open>find_relevant_chunks\<close> raises no error, a division error included; the loop gives
  every chunk a similarity, and the similarity of a chunk whose embedding has norm zero
  is \<open>nan\<close> (numpy's \<open>0 / 0\<close>), not \<open>0\<close>. The code has no guard for a zero norm.
  Where such a chunk lands in the ranking is not promised.
\<close>

theorem find_relevant_chunks_zero_norm_nan:
  assumes "retrievable embedding_model query chunks"
  shows "\<exists>similarities found.
           similarities_loop (embedding_model [query]) chunks [] = Inr similarities
         \<and> map fst similarities = chunks
         \<and> list_all (\<lambda>(chunk, similarity). zero_norm chunk \<longrightarrow> similarity = NaN) similarities
         \<and> find_relevant_chunks embedding_model chunks query top_k = Inr found"
proof -
  from assms obtain q others where q: "embedding_model [query] = q # others"
    and all: "list_all (embedded_like q) chunks"
    and loop: "similarities_loop (embedding_model [query]) chunks [] =
           Inr (map (\<lambda>c. (c, np_divide (inner_product q (the (embedding c)))
                                (np_norm q * np_norm (the (embedding c))))) chunks)"
    by (rule similarities_of_retrievable)
  define sims where "sims = map (\<lambda>c. (c, np_divide (inner_product q (the (embedding c)))
                                (np_norm q * np_norm (the (embedding c))))) chunks"
  have fst_sims: "map fst sims = chunks" by (simp add: sims_def o_def)
  have nan: "list_all (\<lambda>(chunk, similarity). zero_norm chunk \<longrightarrow> similarity = NaN) sims"
    unfolding list_all_iff
  proof
    fix p assume "p \<in> set sims"
    then obtain c where p: "p = (c, np_divide (inner_product q (the (embedding c)))
                                (np_norm q * np_norm (the (embedding c))))"
      by (auto simp: sims_def)
    show "case p of (chunk, similarity) \<Rightarrow> zero_norm chunk \<longrightarrow> similarity = NaN"
      using p zero_norm_similarity by (auto simp: zero_norm_def split: option.splits)
  qed
  have "\<exists>found. find_relevant_chunks embedding_model chunks query top_k = Inr found"
    using loop by (simp add: find_relevant_chunks_def)
  with loop fst_sims nan show ?thesis unfolding sims_def by blast
qed

theorem find_relevant_chunks_zero_norm_nan_witness:
  "retrievable (constant_model [1, 0]) ''q''
     [embedded_chunk ''z'' [0, 0], embedded_chunk ''a'' [1, 0]]
   \<and> zero_norm (embedded_chunk ''z'' [0, 0])
   \<and> similarities_loop (constant_model [1, 0] [''q''])
        [embedded_chunk ''z'' [0, 0], embedded_chunk ''a'' [1, 0]] []
       = Inr [(embedded_chunk ''z'' [0, 0], NaN), (embedded_chunk ''a'' [1, 0], Fin 1)]
   \<and> (\<exists>found. find_relevant_chunks (constant_model [1, 0])
          [embedded_chunk ''z'' [0, 0], embedded_chunk ''a'' [1, 0]] ''q'' 5 = Inr found)"
proof -
  let ?m = "constant_model [1, 0]"
  let ?cs = "[embedded_chunk ''z'' [0, 0], embedded_chunk ''a'' [1, 0]]"
  have h1: "retrievable ?m ''q'' ?cs"
    by (simp add: retrievable_def constant_model_def embedded_like_def embedded_chunk_def)
  have z: "zero_norm (embedded_chunk ''z'' [0, 0])"
    by (simp add: zero_norm_def embedded_chunk_def np_norm_def)
  from find_relevant_chunks_zero_norm_nan [OF h1, of 5]
  have c: "\<exists>found. find_relevant_chunks ?m ?cs ''q'' 5 = Inr found"
    by blast
  have e: "similarities_loop (?m [''q'']) ?cs []
       = Inr [(embedded_chunk ''z'' [0, 0], NaN), (embedded_chunk ''a'' [1, 0], Fin 1)]"
    by (simp add: constant_model_def py_getitem_def chunk_similarity_def embedded_chunk_def
        np_dot_def inner_product_def np_norm_def np_divide_def)
  show ?thesis using h1 z c e by (intro conjI)
qed

text \<open>
  The query vector is \<open>[1, 0]\<close>; the chunk \<open>z\<close> has the embedding \<open>[0, 0]\<close>, the chunk
  \<open>a\<close> the embedding \<open>[1, 0]\<close> and so the similarity \<open>1\<close>. The similarity of \<open>z\<close> is
  \<open>nan\<close>, not \<open>0\<close>, and \<open>z\<close> is returned first, ahead of \<open>a\<close>: the descending sort
  leaves the two where they are, since no comparison with \<open>nan\<close> holds.
\<close>

theorem find_relevant_chunks_zero_norm_counterexample:
  "similarities_loop (constant_model [1, 0] [''q''])
     [embedded_chunk ''z'' [0, 0], embedded_chunk ''a'' [1, 0]] []
     = Inr [(embedded_chunk ''z'' [0, 0], NaN), (embedded_chunk ''a'' [1, 0], Fin 1)]
   \<and> NaN \<noteq> Fin 0
   \<and> find_relevant_chunks (constant_model [1, 0])
        [embedded_chunk ''z'' [0, 0], embedded_chunk ''a'' [1, 0]] ''q'' 5
       = Inr [embedded_chunk ''z'' [0, 0], embedded_chunk ''a'' [1, 0]]"
  by (simp add: find_relevant_chunks_def constant_model_def py_getitem_def
      chunk_similarity_def embedded_chunk_def np_dot_def inner_product_def np_norm_def
      np_divide_def py_sort_key_reverse_def py_sort_key_def py_slice_to_def)

section \<open>Claims on \<open>process_document\<close>\<close>

text \<open>
  Claim C10. The extension of a path is what the code calls \<open>file_extension\<close>: the
  suffix of the path in lower case. When it is neither \<open>.pdf\<close> nor \<open>.txt\<close>,
  \<open>process_document\<close> raises the \<open>ValueError\<close> "Unsupported file format" (the spec's
  \<open>UnsupportedFormat\<close>) and has gone into none of its steps: no extraction, no cleaning,
  no chunking, no embedding.
\<close>

theorem process_document_unsupported_format:
  assumes "lower (ext_suffix ext file_path) \<noteq> ''.pdf''"
    and "lower (ext_suffix ext file_path) \<noteq> ''.txt''"
  shows "process_document ext cfg file_path
           = ([], Inl (ValueError (''Unsupported file format: '' @ lower (ext_suffix ext file_path))))"
  using assms by (simp add: process_document_def)

theorem process_document_unsupported_format_witness:
  "lower (ext_suffix (one_file ''a.txt'' ''hello'') ''notes/report.docx'') = ''.docx''
   \<and> process_document (one_file ''a.txt'' ''hello'') default_settings ''notes/report.docx''
       = ([], Inl (ValueError ''Unsupported file format: .docx''))"
proof -
  let ?ext = "one_file ''a.txt'' ''hello''"
  have s: "lower (ext_suffix ?ext ''notes/report.docx'') = ''.docx''"
    by (simp add: one_file_def plain_suffix_def last_component_def lower_def lower_char_def)
  then have h1: "lower (ext_suffix ?ext ''notes/report.docx'') \<noteq> ''.pdf''"
    and h2: "lower (ext_suffix ?ext ''notes/report.docx'') \<noteq> ''.txt''"
    by simp_all
  from process_document_unsupported_format [OF h1 h2, of default_settings] s
  show ?thesis by simp
qed

text \<open>
  Claim C2, as the code has it. Whenever the extension is accepted and the extraction
  returns a text, the cleaned text holds no newline, so it is its only paragraph, the loop
  of \<open>_create_chunks\<close> finalizes no chunk (the branch with the overlap is not taken), and
  \<open>process_document\<close> returns exactly one chunk, the cleaned text, when the cleaned text
  is not empty, and no chunk when it is empty.
\<close>

theorem process_document_one_chunk:
  assumes "(lower (ext_suffix ext file_path) = ''.txt''
              \<and> extract_text_from_txt ext file_path = Inr text)
         \<or> (lower (ext_suffix ext file_path) = ''.pdf''
              \<and> extract_text_from_pdf ext file_path = Inr text)"
  shows "NL \<notin> set (clean_text text)
       \<and> split_paragraphs (clean_text text) = [clean_text text]
       \<and> fst (chunk_loop (ext_tokenizer ext) cfg ([], [], 0, 0)
                 (split_paragraphs (clean_text text))) = []
       \<and> (\<exists>chunks. process_document ext cfg file_path
                      = ([Extraction, Cleaning, Chunking, Embedding], Inr chunks)
             \<and> length chunks = (if clean_text text = [] then 0 else 1)
             \<and> map content chunks
                 = (if clean_text text = [] then [] else [strip (clean_text text)]))"
proof -
  let ?c = "clean_text text"
  have nl: "NL \<notin> set ?c" by (rule clean_text_no_newline)
  then have sp: "split_paragraphs ?c = [?c]" by (rule split_paragraphs_single)
  have lp: "fst (chunk_loop (ext_tokenizer ext) cfg ([], [], 0, 0) (split_paragraphs ?c)) = []"
    by (simp add: sp chunk_step_empty_buffer del: chunk_step.simps)
  define chunks where "chunks = generate_embeddings (ext_model ext)
      (create_chunks (ext_tokenizer ext) cfg ?c)"
  have pd: "process_document ext cfg file_path
      = ([Extraction, Cleaning, Chunking, Embedding], Inr chunks)"
    using assms by (auto simp: process_document_def chunks_def)
  have cc: "create_chunks (ext_tokenizer ext) cfg ?c
      = (if ?c = [] then [] else [new_chunk (strip ?c) 0 (int (length ?c))])"
    by (rule create_chunks_one_paragraph [OF sp])
  have len: "length chunks = (if ?c = [] then 0 else 1)"
    by (simp add: chunks_def generate_embeddings_def cc)
  have con: "map content chunks = (if ?c = [] then [] else [strip ?c])"
    by (simp add: chunks_def generate_embeddings_def cc new_chunk_def)
  from nl sp lp pd len con show ?thesis by blast
qed

theorem process_document_one_chunk_witness:
  "lower (ext_suffix (one_file ''a.txt'' ''hello   world'') ''a.txt'') = ''.txt''
   \<and> extract_text_from_txt (one_file ''a.txt'' ''hello   world'') ''a.txt'' = Inr ''hello   world''
   \<and> clean_text ''hello   world'' = ''hello world''
   \<and> (\<exists>chunks. process_document (one_file ''a.txt'' ''hello   world'') default_settings ''a.txt''
                   = ([Extraction, Cleaning, Chunking, Embedding], Inr chunks)
          \<and> length chunks = 1
          \<and> map content chunks = [''hello world''])"
proof -
  let ?ext = "one_file ''a.txt'' ''hello   world''"
  have s: "lower (ext_suffix ?ext ''a.txt'') = ''.txt''"
    by (simp add: one_file_def plain_suffix_def last_component_def lower_def lower_char_def)
  have x: "extract_text_from_txt ?ext ''a.txt'' = Inr ''hello   world''"
    by (simp add: one_file_def extract_text_from_txt_def)
  have c: "clean_text ''hello   world'' = ''hello world''"
    by (simp add: clean_text_def remove_special_def kept_char_def is_word_def is_space_def
        strip_def)
  have st: "strip ''hello world'' = ''hello world''"
    by (simp add: strip_def is_space_def)
  from s x have h: "(lower (ext_suffix ?ext ''a.txt'') = ''.txt''
              \<and> extract_text_from_txt ?ext ''a.txt'' = Inr ''hello   world'')
         \<or> (lower (ext_suffix ?ext ''a.txt'') = ''.pdf''
              \<and> extract_text_from_pdf ?ext ''a.txt'' = Inr ''hello   world'')"
    by blast
  from process_document_one_chunk [OF h, of default_settings]
  have "\<exists>chunks. process_document ?ext default_settings ''a.txt''
                   = ([Extraction, Cleaning, Chunking, Embedding], Inr chunks)
          \<and> length chunks = 1
          \<and> map content chunks = [''hello world'']"
    by (simp add: c st)
  with s x c show ?thesis by blast
qed

text \<open>
  A text file that holds one space is not empty, and \<open>process_document\<close> returns no chunk
  for it: the cleaned text is empty.
\<close>

theorem process_document_blank_file_counterexample:
  "process_document (one_file ''a.txt'' '' '') default_settings ''a.txt''
     = ([Extraction, Cleaning, Chunking, Embedding], Inr [])"
proof -
  let ?ext = "one_file ''a.txt'' '' ''"
  have s: "lower (ext_suffix ?ext ''a.txt'') = ''.txt''"
    by (simp add: one_file_def plain_suffix_def last_component_def lower_def lower_char_def)
  have x: "extract_text_from_txt ?ext ''a.txt'' = Inr '' ''"
    by (simp add: one_file_def extract_text_from_txt_def)
  have c: "clean_text '' '' = []"
    by (simp add: clean_text_def remove_special_def kept_char_def is_space_def strip_def)
  have m: "ext_model ?ext = constant_model [1, 0]" by (simp add: one_file_def)
  show ?thesis
    using s x c m
    by (simp add: process_document_def create_chunks_def split_paragraphs_def
        generate_embeddings_def constant_model_def chunk_step_empty_buffer
        del: chunk_step.simps)
qed

section \<open>Claims on the chunker\<close>

text \<open>
  Claim C9. In the sequence of chunks \<open>_create_chunks\<close> produces from a text, every chunk
  has \<open>startPos < endPos\<close>, and the \<open>startPos\<close> of a chunk is at most that of every
  chunk produced after it.
\<close>

theorem create_chunks_positions:
  "list_all well_positioned (create_chunks tk cfg text)
   \<and> sorted_wrt starts_before (create_chunks tk cfg text)"
proof -
  have "positions_ok ([], [], 0, 0)" by (simp add: positions_ok_def)
  then have "positions_ok (chunk_loop tk cfg ([], [], 0, 0) (split_paragraphs text))"
    by (rule positions_ok_loop)
  then show ?thesis unfolding create_chunks_def by (rule positions_ok_flush)
qed

theorem create_chunks_positions_witness:
  "map (\<lambda>c. (content c, start_pos c, end_pos c))
     (create_chunks char_tokenizer \<lparr>CHUNK_SIZE = 3, CHUNK_OVERLAP = 2\<rparr>
        (''ab'' @ [NL, NL] @ ''cd'' @ [NL, NL] @ ''efgh''))
     = [(''ab'', Some 0, Some 2), (''ab cd'', Some 3, Some 8), (''cd efgh'', Some 8, Some 15)]
   \<and> list_all well_positioned
       (create_chunks char_tokenizer \<lparr>CHUNK_SIZE = 3, CHUNK_OVERLAP = 2\<rparr>
          (''ab'' @ [NL, NL] @ ''cd'' @ [NL, NL] @ ''efgh''))
   \<and> sorted_wrt starts_before
       (create_chunks char_tokenizer \<lparr>CHUNK_SIZE = 3, CHUNK_OVERLAP = 2\<rparr>
          (''ab'' @ [NL, NL] @ ''cd'' @ [NL, NL] @ ''efgh''))"
proof -
  have "map (\<lambda>c. (content c, start_pos c, end_pos c))
     (create_chunks char_tokenizer \<lparr>CHUNK_SIZE = 3, CHUNK_OVERLAP = 2\<rparr>
        (''ab'' @ [NL, NL] @ ''cd'' @ [NL, NL] @ ''efgh''))
     = [(''ab'', Some 0, Some 2), (''ab cd'', Some 3, Some 8), (''cd efgh'', Some 8, Some 15)]"
    by (simp add: create_chunks_def split_paragraphs_def Let_def get_overlap_text_def
        py_slice_from_def char_tokenizer_def strip_def is_space_def new_chunk_def)
  with create_chunks_positions [of char_tokenizer "\<lparr>CHUNK_SIZE = 3, CHUNK_OVERLAP = 2\<rparr>"
      "''ab'' @ [NL, NL] @ ''cd'' @ [NL, NL] @ ''efgh''"]
  show ?thesis by blast
qed



text \<open>
  Claim C3, as the code has it, for every \<open>maxTokens\<close> (1000 included). The chunks of a
  text are the trimmed buffers of a linked sequence: the first buffer has no prefix, each
  later one has as prefix the overlap text of the buffer before it and a space, and the
  paragraphs of the buffers, in order, are the paragraphs of the text from its first
  non-empty one on. A buffer with two or more paragraphs has at most \<open>maxTokens\<close> counted
  tokens: the tokens of its opening piece (prefix and first paragraph) plus the tokens of
  each further paragraph. A buffer with one paragraph is its opening piece, of any size.
  The token count of the chunk's text itself is not bounded by \<open>maxTokens\<close>.
\<close>

theorem create_chunks_token_accounting:
  "\<exists>groups. linked tk (CHUNK_OVERLAP cfg) [] groups
     \<and> concat (map snd groups) = dropWhile (\<lambda>p. p = []) (split_paragraphs text)
     \<and> map content (create_chunks tk cfg text) = map (\<lambda>g. strip (buffer_of g)) groups
     \<and> list_all (within_budget tk cfg) groups"
proof -
  from create_chunks_layout [of tk cfg "text"]
  obtain groups where g: "linked tk (CHUNK_OVERLAP cfg) [] groups"
    "concat (map snd groups) = dropWhile (\<lambda>p. p = []) (split_paragraphs text)"
    "map chunk_view (create_chunks tk cfg text) = map (\<lambda>g. buffer_view (buffer_of g)) groups"
    "list_all (within_budget tk cfg) groups"
    by blast
  from g(3) have "map fst (map chunk_view (create_chunks tk cfg text))
      = map fst (map (\<lambda>g. buffer_view (buffer_of g)) groups)"
    by simp
  then have "map content (create_chunks tk cfg text) = map (\<lambda>g. strip (buffer_of g)) groups"
    by (simp add: o_def chunk_view_def buffer_view_def)
  with g(1,2,4) show ?thesis by blast
qed

theorem create_chunks_token_accounting_witness:
  "(\<exists>groups. linked char_tokenizer 2 [] groups
      \<and> concat (map snd groups) = [''ab'', ''cd'', ''efghijk'']
      \<and> map content (create_chunks char_tokenizer \<lparr>CHUNK_SIZE = 10, CHUNK_OVERLAP = 2\<rparr>
            [CHR ''a'', CHR ''b'', NL, NL, CHR ''c'', CHR ''d'', NL, NL,
             CHR ''e'', CHR ''f'', CHR ''g'', CHR ''h'', CHR ''i'', CHR ''j'', CHR ''k''])
          = map (\<lambda>g. strip (buffer_of g)) groups
      \<and> list_all (within_budget char_tokenizer \<lparr>CHUNK_SIZE = 10, CHUNK_OVERLAP = 2\<rparr>) groups)
   \<and> map content (create_chunks char_tokenizer \<lparr>CHUNK_SIZE = 10, CHUNK_OVERLAP = 2\<rparr>
         [CHR ''a'', CHR ''b'', NL, NL, CHR ''c'', CHR ''d'', NL, NL,
          CHR ''e'', CHR ''f'', CHR ''g'', CHR ''h'', CHR ''i'', CHR ''j'', CHR ''k''])
       = [[CHR ''a'', CHR ''b'', NL, NL, CHR ''c'', CHR ''d''], ''cd efghijk'']
   \<and> counted_tokens char_tokenizer ([], [''ab'', ''cd'']) = 4"
proof -
  let ?cfg = "\<lparr>CHUNK_SIZE = 10, CHUNK_OVERLAP = 2\<rparr>"
  let ?t = "[CHR ''a'', CHR ''b'', NL, NL, CHR ''c'', CHR ''d'', NL, NL,
             CHR ''e'', CHR ''f'', CHR ''g'', CHR ''h'', CHR ''i'', CHR ''j'', CHR ''k'']"
  have sp: "split_paragraphs ?t = [''ab'', ''cd'', ''efghijk'']"
    by (simp add: split_paragraphs_def)
  from create_chunks_token_accounting [of char_tokenizer ?cfg ?t]
  have a: "\<exists>groups. linked char_tokenizer 2 [] groups
      \<and> concat (map snd groups) = [''ab'', ''cd'', ''efghijk'']
      \<and> map content (create_chunks char_tokenizer ?cfg ?t) = map (\<lambda>g. strip (buffer_of g)) groups
      \<and> list_all (within_budget char_tokenizer ?cfg) groups"
    by (simp add: sp)
  have e: "map content (create_chunks char_tokenizer ?cfg ?t)
       = [[CHR ''a'', CHR ''b'', NL, NL, CHR ''c'', CHR ''d''], ''cd efghijk'']"
    by (simp add: create_chunks_def sp Let_def get_overlap_text_def py_slice_from_def
        char_tokenizer_def strip_def is_space_def new_chunk_def)
  have c: "counted_tokens char_tokenizer ([], [''ab'', ''cd'']) = 4"
    by (simp add: counted_tokens_def token_count_def char_tokenizer_def)
  from a e c show ?thesis by (intro conjI)
qed

text \<open>
  With \<open>maxTokens = 1000\<close>, an overlap of 200 tokens and every character a token: a
  paragraph of 600 tokens and one of 900, none above the bound. The first chunk is the
  first paragraph; the second is the last 200 tokens of the first, a space and the second
  paragraph, 1101 tokens, and it is not a paragraph of the text.
\<close>

theorem create_chunks_token_bound_counterexample:
  "CHUNK_SIZE default_settings = 1000
   \<and> map (token_count char_tokenizer)
        (split_paragraphs (replicate 600 (CHR ''a'') @ [NL, NL] @ replicate 900 (CHR ''b'')))
       = [600, 900]
   \<and> map content
        (create_chunks char_tokenizer default_settings
           (replicate 600 (CHR ''a'') @ [NL, NL] @ replicate 900 (CHR ''b'')))
       = [replicate 600 (CHR ''a''),
          replicate 200 (CHR ''a'') @ '' '' @ replicate 900 (CHR ''b'')]
   \<and> token_count char_tokenizer
        (replicate 200 (CHR ''a'') @ '' '' @ replicate 900 (CHR ''b'')) = 1101"
proof -
  define A where "A = replicate 600 (CHR ''a'')"
  define B where "B = replicate 900 (CHR ''b'')"
  define Ov where "Ov = replicate 200 (CHR ''a'')"
  have A: "length A = 600" "NL \<notin> set A" "A \<noteq> []" "hd A = CHR ''a''" "last A = CHR ''a''"
    by (simp_all add: A_def)
  have B: "length B = 900" "NL \<notin> set B" "B \<noteq> []" "last B = CHR ''b''"
    by (simp_all add: B_def)
  have Ov: "length Ov = 200" "Ov \<noteq> []" "hd Ov = CHR ''a''" "drop 400 A = Ov"
    by (simp_all add: Ov_def A_def)
  have na: "\<not> is_space (CHR ''a'')" "\<not> is_space (CHR ''b'')"
    by (simp_all add: is_space_def)
  have sp: "split_paragraphs (A @ NL # NL # B) = [A, B]"
    using split_blank_at_separator [OF A(2), of "[]" B] split_blank_no_newline [OF B(2), of "[]"]
    by (simp add: split_paragraphs_def)
  have tc: "token_count char_tokenizer A = 600" "token_count char_tokenizer B = 900"
    "token_count char_tokenizer (Ov @ '' '' @ B) = 1101"
    by (simp_all add: token_count_def char_tokenizer_def A B Ov)
  have s1: "chunk_step char_tokenizer default_settings ([], [], 0, 0) A = ([], A, 600, 0)"
    using A(1) by (simp add: chunk_step_empty_buffer char_tokenizer_def del: chunk_step.simps)
  have ov: "get_overlap_text char_tokenizer A (CHUNK_OVERLAP default_settings) = Ov"
    using A(1) Ov(4)
    by (simp add: get_overlap_text_def char_tokenizer_def default_settings_def py_slice_from_def)
  have s2: "chunk_step char_tokenizer default_settings ([], A, 600, 0) B
      = ([new_chunk (strip A) 0 600], Ov @ '' '' @ B, 1101, 901)"
    using A(1,3) B(1) Ov(1) ov
    by (simp add: Let_def char_tokenizer_def default_settings_def)
  have stA: "strip A = A"
    using A(3,4,5) na by (intro strip_id) simp_all
  have stN: "strip (Ov @ '' '' @ B) = Ov @ '' '' @ B"
    using Ov(2,3) B(3,4) na by (intro strip_id) simp_all
  have cc: "create_chunks char_tokenizer default_settings (A @ NL # NL # B)
      = [new_chunk A 0 600, new_chunk (Ov @ '' '' @ B) 901 2002]"
    using s1 s2 stA stN A(1) B(1) Ov(1)
    by (simp add: create_chunks_def sp del: chunk_step.simps)
  have "map content (create_chunks char_tokenizer default_settings (A @ NL # NL # B))
      = [A, Ov @ '' '' @ B]"
    by (simp add: cc new_chunk_def)
  moreover have "map (token_count char_tokenizer) (split_paragraphs (A @ NL # NL # B)) = [600, 900]"
    by (simp add: sp tc)
  moreover have "CHUNK_SIZE default_settings = 1000" by (simp add: default_settings_def)
  ultimately show ?thesis
    using tc(3) unfolding A_def B_def Ov_def by simp
qed

text \<open>
  Claim C4, as the code has it. Every chunk is the trimmed text of a buffer whose length
  is \<open>endPos - startPos\<close>. For consecutive chunks \<open>i\<close> and \<open>i+1\<close>, the overlap text
  \<open>_get_overlap_text\<close> takes from the buffer of chunk \<open>i\<close> (for an \<open>overlapTokens\<close>
  of at least 1: the decoded last \<open>overlapTokens\<close> tokens of the buffer, or the whole
  buffer when it has no more tokens than that), followed by a space, is a prefix of the
  buffer of chunk \<open>i+1\<close>; trimmed, it is a prefix of the content of chunk \<open>i+1\<close>.
\<close>

theorem create_chunks_overlap_prefix:
  "\<exists>buffers. map chunk_view (create_chunks tk cfg text) = map buffer_view buffers
     \<and> (\<forall>i. Suc i < length buffers \<longrightarrow>
           prefix (get_overlap_text tk (buffers ! i) (CHUNK_OVERLAP cfg) @ '' '')
                  (buffers ! Suc i)
         \<and> prefix (strip (get_overlap_text tk (buffers ! i) (CHUNK_OVERLAP cfg)))
                  (content (create_chunks tk cfg text ! Suc i)))"
proof -
  let ?cs = "create_chunks tk cfg text"
  from create_chunks_layout [of tk cfg "text"]
  obtain groups where l: "linked tk (CHUNK_OVERLAP cfg) [] groups"
    and v: "map chunk_view ?cs = map (\<lambda>g. buffer_view (buffer_of g)) groups"
    by blast
  define buffers where "buffers = map buffer_of groups"
  have v': "map chunk_view ?cs = map buffer_view buffers"
    by (simp add: v buffers_def o_def)
  then have len: "length ?cs = length buffers"
    by (metis length_map)
  have "prefix (get_overlap_text tk (buffers ! i) (CHUNK_OVERLAP cfg) @ '' '') (buffers ! Suc i)
      \<and> prefix (strip (get_overlap_text tk (buffers ! i) (CHUNK_OVERLAP cfg)))
           (content (?cs ! Suc i))"
    if i: "Suc i < length buffers" for i
  proof -
    let ?ov = "get_overlap_text tk (buffers ! i) (CHUNK_OVERLAP cfg)"
    from i have ig: "Suc i < length groups" by (simp add: buffers_def)
    from linked_nth [OF l ig] have "fst (groups ! Suc i) = ?ov @ '' ''"
      using ig by (simp add: buffers_def)
    then have b: "buffers ! Suc i = ?ov @ ('' '' @ join_blank (snd (groups ! Suc i)))"
      using ig by (simp add: buffers_def buffer_of_def)
    have "chunk_view (?cs ! Suc i) = buffer_view (buffers ! Suc i)"
      using i len v' by (metis nth_map)
    then have "content (?cs ! Suc i) = strip (buffers ! Suc i)"
      by (simp add: chunk_view_def buffer_view_def)
    with b prefix_strip_append [of ?ov "'' '' @ join_blank (snd (groups ! Suc i))"]
    have "prefix (strip ?ov) (content (?cs ! Suc i))" by simp
    moreover from b have "prefix (?ov @ '' '') (buffers ! Suc i)" by simp
    ultimately show ?thesis by blast
  qed
  with v' show ?thesis by blast
qed

theorem create_chunks_overlap_prefix_witness:
  "(\<exists>buffers.
      map chunk_view (create_chunks char_tokenizer \<lparr>CHUNK_SIZE = 3, CHUNK_OVERLAP = 2\<rparr>
         [CHR ''a'', CHR ''b'', NL, NL, CHR ''c'', CHR ''d'', NL, NL,
          CHR ''e'', CHR ''f'', CHR ''g'', CHR ''h''])
        = map buffer_view buffers)
   \<and> map content (create_chunks char_tokenizer \<lparr>CHUNK_SIZE = 3, CHUNK_OVERLAP = 2\<rparr>
         [CHR ''a'', CHR ''b'', NL, NL, CHR ''c'', CHR ''d'', NL, NL,
          CHR ''e'', CHR ''f'', CHR ''g'', CHR ''h''])
       = [''ab'', ''ab cd'', ''cd efgh'']
   \<and> get_overlap_text char_tokenizer ''ab'' 2 = ''ab''
   \<and> get_overlap_text char_tokenizer ''ab cd'' 2 = ''cd''
   \<and> prefix ''ab'' ''ab cd'' \<and> prefix ''cd'' ''cd efgh''"
proof -
  let ?cfg = "\<lparr>CHUNK_SIZE = 3, CHUNK_OVERLAP = 2\<rparr>"
  let ?t = "[CHR ''a'', CHR ''b'', NL, NL, CHR ''c'', CHR ''d'', NL, NL,
             CHR ''e'', CHR ''f'', CHR ''g'', CHR ''h'']"
  from create_chunks_overlap_prefix [of char_tokenizer ?cfg ?t]
  have a: "\<exists>buffers. map chunk_view (create_chunks char_tokenizer ?cfg ?t)
      = map buffer_view buffers"
    by blast
  have e: "map content (create_chunks char_tokenizer ?cfg ?t) = [''ab'', ''ab cd'', ''cd efgh'']"
    by (simp add: create_chunks_def split_paragraphs_def Let_def get_overlap_text_def
        py_slice_from_def char_tokenizer_def strip_def is_space_def new_chunk_def)
  have o: "get_overlap_text char_tokenizer ''ab'' 2 = ''ab''"
    "get_overlap_text char_tokenizer ''ab cd'' 2 = ''cd''"
    by (simp_all add: get_overlap_text_def py_slice_from_def char_tokenizer_def)
  have p: "prefix ''ab'' ''ab cd''" "prefix ''cd'' ''cd efgh''" by simp_all
  from a e o p show ?thesis by (intro conjI)
qed

text \<open>
  With \<open>maxTokens = 3\<close>, an overlap of 2 tokens and every character a token, the text of
  the paragraphs \<open>a b\<close> and \<open>cd\<close> gives the chunks \<open>a b\<close> and \<open>b cd\<close>. The last two
  tokens of the first chunk decode to a space and \<open>b\<close>; the second chunk begins with
  \<open>b\<close>, its buffer having been trimmed.
\<close>

theorem create_chunks_overlap_prefix_counterexample:
  "map content (create_chunks char_tokenizer \<lparr>CHUNK_SIZE = 3, CHUNK_OVERLAP = 2\<rparr>
      [CHR ''a'', CHR '' '', CHR ''b'', NL, NL, CHR ''c'', CHR ''d''])
     = [''a b'', ''b cd'']
   \<and> decode char_tokenizer (py_slice_from (encode char_tokenizer ''a b'') (- 2)) = '' b''
   \<and> \<not> prefix '' b'' ''b cd''"
  by (simp add: create_chunks_def split_paragraphs_def Let_def get_overlap_text_def
      py_slice_from_def char_tokenizer_def strip_def is_space_def new_chunk_def)

end
